theory Spec2Isabelle
  imports Main "HOL-Library.Sublist"
begin

section \<open>Texts and character classes\<close>

text \<open>
  The converter \<^verbatim>\<open>process_latex.py\<close> reads a LaTeX file into a Python \<^verbatim>\<open>str\<close>, rewrites it
  with a fixed sequence of \<^verbatim>\<open>re.sub\<close> calls and writes the result. The text is modelled as a
  \<open>string\<close>; one \<open>char\<close> stands for one code point of the Python string, so the model covers
  the texts whose code points are below 256. Reading and writing the file are left out: the
  model starts at the content that \<^verbatim>\<open>f.read()\<close> returned and ends at the content handed to
  \<^verbatim>\<open>f.write\<close>.
\<close>

abbreviation bsl :: char where
  "bsl \<equiv> CHR 0x5C"

abbreviation nl :: char where
  "nl \<equiv> CHR 0x0A"

text \<open>
  Python's \<^verbatim>\<open>\s\<close> on a \<^verbatim>\<open>str\<close> pattern and \<^verbatim>\<open>str.strip()\<close> use the same test: below 256 the
  whitespace code points are 9 to 13, 28 to 32, 133 and 160.
\<close>

definition is_space :: "char \<Rightarrow> bool" where
  "is_space c = (c \<in> set [CHR 0x09, CHR 0x0A, CHR 0x0B, CHR 0x0C, CHR 0x0D,
                            CHR 0x1C, CHR 0x1D, CHR 0x1E, CHR 0x1F, CHR 0x20,
                            CHR 0x85, CHR 0xA0])"

text \<open>The class \<^verbatim>\<open>[a-zA-Z]\<close>, by code point.\<close>

definition is_alpha :: "char \<Rightarrow> bool" where
  "is_alpha c = ((97 \<le> (of_char c :: nat) \<and> (of_char c :: nat) \<le> 122) \<or>
                 (65 \<le> (of_char c :: nat) \<and> (of_char c :: nat) \<le> 90))"

section \<open>The regular expressions of the source\<close>

text \<open>
  Every pattern of the source is a flat sequence of single-character items, each taken once
  or under \<^verbatim>\<open>*\<close>, \<^verbatim>\<open>*?\<close> or \<^verbatim>\<open>+\<close>, the anchors \<^verbatim>\<open>^\<close> and \<^verbatim>\<open>$\<close> (always with \<^verbatim>\<open>re.MULTILINE\<close>) and at
  most one capturing group. \<open>Dot\<close> is \<^verbatim>\<open>.\<close> without \<^verbatim>\<open>re.DOTALL\<close> (any character but a line feed),
  \<open>DotAll\<close> is \<^verbatim>\<open>.\<close> with it, \<open>Non c\<close> is \<^verbatim>\<open>[^c]\<close>.
\<close>

datatype cls = Lit char | Dot | DotAll | Space | Alpha | Non char

fun cls_ok :: "cls \<Rightarrow> char \<Rightarrow> bool" where
  "cls_ok (Lit c) x = (x = c)"
| "cls_ok Dot x = (x \<noteq> nl)"
| "cls_ok DotAll x = True"
| "cls_ok Space x = is_space x"
| "cls_ok Alpha x = is_alpha x"
| "cls_ok (Non c) x = (x \<noteq> c)"

datatype atom = One cls | Star cls | Lazy cls | Bol | Eol | Open | Close

text \<open>A literal piece of a pattern, and \<^verbatim>\<open>x+\<close>, which the matcher treats as \<^verbatim>\<open>xx*\<close>.\<close>

definition lit :: "string \<Rightarrow> atom list" where
  "lit s = map (\<lambda>c. One (Lit c)) s"

definition one_or_more :: "cls \<Rightarrow> atom list" where
  "one_or_more c = [One c, Star c]"

text \<open>
  The state of the capturing group while matching: whether the group is open, and the text
  it has taken so far.
\<close>

fun take_char :: "bool \<times> string \<Rightarrow> char \<Rightarrow> bool \<times> string" where
  "take_char (g, cap) x = (g, if g then cap @ [x] else cap)"

text \<open>
  The backtracking matcher of \<^verbatim>\<open>re\<close>, anchored at the start of the given text. \<open>bol\<close> says
  whether the position is the start of the text or follows a line feed (where \<^verbatim>\<open>^\<close> matches
  under \<^verbatim>\<open>re.MULTILINE\<close>). A greedy star tries the longest run first and gives characters back
  one at a time; a lazy star tries the rest of the pattern first and takes one character more
  only when that fails. The result is the text of group 1, the \<open>bol\<close> flag at the end of the
  match and the text that follows the match.
\<close>

fun rmatch :: "atom list \<Rightarrow> bool \<Rightarrow> bool \<times> string \<Rightarrow> string \<Rightarrow> (string \<times> bool \<times> string) option" where
  "rmatch [] bol st s = Some (snd st, bol, s)"
| "rmatch (One c # p) bol st [] = None"
| "rmatch (One c # p) bol st (x # xs) =
     (if cls_ok c x then rmatch p (x = nl) (take_char st x) xs else None)"
| "rmatch (Star c # p) bol st [] = rmatch p bol st []"
| "rmatch (Star c # p) bol st (x # xs) =
     (if cls_ok c x then
        (case rmatch (Star c # p) (x = nl) (take_char st x) xs of
           Some r \<Rightarrow> Some r
         | None \<Rightarrow> rmatch p bol st (x # xs))
      else rmatch p bol st (x # xs))"
| "rmatch (Lazy c # p) bol st [] = rmatch p bol st []"
| "rmatch (Lazy c # p) bol st (x # xs) =
     (case rmatch p bol st (x # xs) of
        Some r \<Rightarrow> Some r
      | None \<Rightarrow> if cls_ok c x then rmatch (Lazy c # p) (x = nl) (take_char st x) xs else None)"
| "rmatch (Bol # p) bol st s = (if bol then rmatch p bol st s else None)"
| "rmatch (Eol # p) bol st [] = rmatch p bol st []"
| "rmatch (Eol # p) bol st (x # xs) = (if x = nl then rmatch p bol st (x # xs) else None)"
| "rmatch (Open # p) bol st s = rmatch p bol (True, []) s"
| "rmatch (Close # p) bol st s = rmatch p bol (False, snd st) s"

text \<open>
  \<^verbatim>\<open>re.sub(pattern, repl, content)\<close>: the text is scanned from the left; at the first position
  where the pattern matches, the match is replaced by \<open>rep\<close> of group 1 and the scan goes on
  behind the match; a character at which nothing matches is copied. Positions are those of
  the original text, so \<open>bol\<close> follows the characters read, not the characters written. No
  pattern of the source can match the empty text; for such a match the model writes the
  replacement, copies one character and goes on.
\<close>

function re_sub :: "atom list \<Rightarrow> (string \<Rightarrow> string) \<Rightarrow> bool \<Rightarrow> string \<Rightarrow> string" where
  "re_sub p rep bol [] =
     (case rmatch p bol (False, []) [] of
        None \<Rightarrow> []
      | Some (cap, b, r) \<Rightarrow> rep cap)"
| "re_sub p rep bol (x # xs) =
     (case rmatch p bol (False, []) (x # xs) of
        None \<Rightarrow> x # re_sub p rep (x = nl) xs
      | Some (cap, b, r) \<Rightarrow>
          if length r < length (x # xs) then rep cap @ re_sub p rep b r
          else rep cap @ x # re_sub p rep (x = nl) xs)"
  by pat_completeness auto
termination
  by (relation "measure (\<lambda>(p, rep, bol, s). length s)") auto

text \<open>The two shapes of replacement: a fixed text, and a fixed text followed by group 1.\<close>

definition const_rep :: "string \<Rightarrow> string \<Rightarrow> string" where
  "const_rep t cap = t"

definition prefix_rep :: "string \<Rightarrow> string \<Rightarrow> string" where
  "prefix_rep t cap = t @ cap"

text \<open>\<^verbatim>\<open>re.sub(pattern, repl, content)\<close> and \<^verbatim>\<open>re.sub(..., flags=...)\<close> on a whole text.\<close>

definition sub :: "atom list \<Rightarrow> (string \<Rightarrow> string) \<Rightarrow> string \<Rightarrow> string" where
  "sub p rep s = re_sub p rep True s"

text \<open>\<^verbatim>\<open>str.strip()\<close>.\<close>

definition strip :: "string \<Rightarrow> string" where
  "strip s = rev (dropWhile is_space (rev (dropWhile is_space s)))"

text \<open>A backslash followed by a literal text, as in \<^verbatim>\<open>\newpage\<close>.\<close>

definition cmd :: "string \<Rightarrow> atom list" where
  "cmd name = One (Lit bsl) # lit name"

section \<open>The converter\<close>

text \<open>
  \<^verbatim>\<open>clean_math_content(math_text)\<close>: the five substitutions in source order, then \<^verbatim>\<open>strip()\<close>.
\<close>

definition clean_math_content :: "string \<Rightarrow> string" where
  "clean_math_content math_text =
     (let math_text = sub (One (Lit bsl) # one_or_more Alpha @ lit ''{'' @ [Open, Star (Non CHR ''}''), Close] @ lit ''}'')
                          (prefix_rep []) math_text;
          math_text = sub (One (Lit bsl) # one_or_more Alpha) (const_rep []) math_text;
          math_text = sub (cmd ''left'') (const_rep []) math_text;
          math_text = sub (cmd ''right'') (const_rep []) math_text;
          math_text = sub (cmd ''text{'' @ [Open, Star (Non CHR ''}''), Close] @ lit ''}'')
                          (prefix_rep []) math_text
      in strip math_text)"

text \<open>
  \<^verbatim>\<open>process_latex_file\<close>, from the content read to the content written. The substitutions are
  grouped as the comments of the source group them, in source order.
\<close>

text \<open>\<^verbatim>\<open># Remove LaTeX document structure\<close>\<close>

definition remove_document_structure :: "string \<Rightarrow> string" where
  "remove_document_structure content =
     (let content = sub (cmd ''documentclass['' @ [Lazy Dot] @ lit '']{'' @ [Lazy Dot] @ lit ''}'')
                        (const_rep []) content;
          content = sub (cmd ''begin{document}'') (const_rep []) content;
          content = sub (cmd ''end{document}'') (const_rep []) content
      in content)"

text \<open>\<^verbatim>\<open># Remove comments\<close>: the pattern \<^verbatim>\<open>%.*$\<close> with \<^verbatim>\<open>re.MULTILINE\<close>.\<close>

definition remove_comments :: "string \<Rightarrow> string" where
  "remove_comments content = sub (lit ''%'' @ [Star Dot, Eol]) (const_rep []) content"

text \<open>\<^verbatim>\<open># Remove custom commands and placeholders\<close>\<close>

definition remove_custom_commands :: "string \<Rightarrow> string" where
  "remove_custom_commands content =
     (let content = sub (cmd ''myCover{'' @ [Lazy Dot] @ lit ''}'') (const_rep []) content;
          content = sub (cmd ''myChapterCover{}'') (const_rep []) content;
          content = sub (cmd ''newpage'') (const_rep []) content
      in content)"

text \<open>
  \<^verbatim>\<open># Convert sections to markdown headers\<close>: for each sectioning command the pattern with a
  following \<^verbatim>\<open>\label\<close> first, then the pattern of the command alone.
\<close>

definition labeled_heading :: "string \<Rightarrow> atom list" where
  "labeled_heading name =
     cmd name @ lit ''{'' @ [Open, Lazy Dot, Close] @ lit ''}'' @ [Star Space] @
     cmd ''label{'' @ [Lazy Dot] @ lit ''}''"

definition plain_heading :: "string \<Rightarrow> atom list" where
  "plain_heading name = cmd name @ lit ''{'' @ [Open, Lazy Dot, Close] @ lit ''}''"

definition convert_sections :: "string \<Rightarrow> string" where
  "convert_sections content =
     (let content = sub (labeled_heading ''section'') (prefix_rep ''# '') content;
          content = sub (plain_heading ''section'') (prefix_rep ''# '') content;
          content = sub (labeled_heading ''subsection'') (prefix_rep ''## '') content;
          content = sub (plain_heading ''subsection'') (prefix_rep ''## '') content;
          content = sub (labeled_heading ''subsubsection'') (prefix_rep ''### '') content;
          content = sub (plain_heading ''subsubsection'') (prefix_rep ''### '') content
      in content)"

text \<open>\<^verbatim>\<open># Remove labels without section headers\<close>\<close>

definition remove_labels :: "string \<Rightarrow> string" where
  "remove_labels content = sub (cmd ''label{'' @ [Lazy Dot] @ lit ''}'') (const_rep []) content"

text \<open>\<^verbatim>\<open># Remove citations\<close>\<close>

definition remove_citations :: "string \<Rightarrow> string" where
  "remove_citations content =
     (let content = sub (cmd ''cite{'' @ [Lazy Dot] @ lit ''}'') (const_rep []) content;
          content = sub (lit ''~'' @ cmd ''cite{'' @ [Lazy Dot] @ lit ''}'') (const_rep []) content;
          content = sub (cmd ''Cref{'' @ [Lazy Dot] @ lit ''}'') (const_rep []) content;
          content = sub (cmd ''cref{'' @ [Lazy Dot] @ lit ''}'') (const_rep []) content
      in content)"

text \<open>
  \<^verbatim>\<open># Replace equation blocks with placeholder\<close>: the patterns carry \<^verbatim>\<open>re.DOTALL\<close>, and the same
  shape (with an empty replacement) removes the figure and table environments below.
\<close>

definition environment :: "string \<Rightarrow> atom list" where
  "environment name =
     cmd ''begin{'' @ lit name @ lit ''}'' @ [Lazy DotAll] @ cmd ''end{'' @ lit name @ lit ''}''"

definition replace_equation_blocks :: "string \<Rightarrow> string" where
  "replace_equation_blocks content =
     (let content = sub (environment ''equation'') (const_rep ''<EQN HERE>'') content;
          content = sub (environment ''align'') (const_rep ''<EQN HERE>'') content;
          content = sub (environment ''split'') (const_rep ''<EQN HERE>'') content
      in content)"

text \<open>
  \<^verbatim>\<open># Handle inline math\<close>: the replacement is the function
  \<^verbatim>\<open>lambda m: '$' + clean_math_content(m.group(1)) + '$'\<close>.
\<close>

definition inline_math_rep :: "string \<Rightarrow> string" where
  "inline_math_rep cap = ''$'' @ clean_math_content cap @ ''$''"

definition handle_inline_math :: "string \<Rightarrow> string" where
  "handle_inline_math content =
     sub (lit ''$'' @ [Open, Lazy (Non CHR ''$''), Close] @ lit ''$'') inline_math_rep content"

text \<open>
  \<^verbatim>\<open># Remove other LaTeX formatting\<close>: a command with one argument in braces is replaced by
  the argument; the same shape serves \<^verbatim>\<open>\mathbf\<close> and \<^verbatim>\<open>\vec\<close> below.
\<close>

definition unwrap :: "string \<Rightarrow> atom list" where
  "unwrap name = cmd name @ lit ''{'' @ [Open, Star (Non CHR ''}''), Close] @ lit ''}''"

definition remove_formatting :: "string \<Rightarrow> string" where
  "remove_formatting content =
     (let content = sub (unwrap ''textit'') (prefix_rep []) content;
          content = sub (unwrap ''textbf'') (prefix_rep []) content;
          content = sub (unwrap ''text'') (prefix_rep []) content
      in content)"

text \<open>\<^verbatim>\<open># Remove figure environments\<close> and \<^verbatim>\<open># Remove table environments\<close>\<close>

definition remove_figures :: "string \<Rightarrow> string" where
  "remove_figures content = sub (environment ''figure'') (const_rep []) content"

definition remove_tables :: "string \<Rightarrow> string" where
  "remove_tables content =
     (let content = sub (environment ''table'') (const_rep []) content;
          content = sub (environment ''tabulary'') (const_rep []) content
      in content)"

text \<open>\<^verbatim>\<open># Remove other LaTeX commands\<close>\<close>

definition remove_other_commands :: "string \<Rightarrow> string" where
  "remove_other_commands content =
     (let content = sub (cmd ''centering'') (const_rep []) content;
          content = sub (cmd ''includegraphics['' @ [Lazy Dot] @ lit '']{'' @ [Lazy Dot] @ lit ''}'')
                        (const_rep []) content;
          content = sub (cmd ''caption{'' @ [Lazy Dot] @ lit ''}'') (const_rep []) content;
          content = sub (cmd ''toprule'') (const_rep []) content;
          content = sub (cmd ''midrule'') (const_rep []) content;
          content = sub (cmd ''bottomrule'') (const_rep []) content
      in content)"

text \<open>\<^verbatim>\<open># Remove tensor notation and other LaTeX-specific formatting\<close>\<close>

definition remove_tensor_notation :: "string \<Rightarrow> string" where
  "remove_tensor_notation content =
     (let content = sub (cmd ''tensor['' @ [Lazy Dot] @ lit '']{'' @ [Lazy Dot] @ lit ''}{'' @
                         [Lazy Dot] @ lit ''}'') (const_rep []) content;
          content = sub (unwrap ''mathbf'') (prefix_rep []) content;
          content = sub (unwrap ''vec'') (prefix_rep []) content
      in content)"

text \<open>
  \<^verbatim>\<open># Clean up extra whitespace and empty lines\<close>: \<^verbatim>\<open>\n\s*\n\s*\n\<close> becomes two line feeds, then
  \<^verbatim>\<open>^\s+\<close> and \<^verbatim>\<open>\s+$\<close> (both with \<^verbatim>\<open>re.MULTILINE\<close>) are deleted.
\<close>

definition collapse_blank_lines :: "string \<Rightarrow> string" where
  "collapse_blank_lines content =
     sub ([One (Lit nl), Star Space, One (Lit nl), Star Space, One (Lit nl)]) (const_rep [nl, nl]) content"

definition strip_leading :: "string \<Rightarrow> string" where
  "strip_leading content = sub (Bol # one_or_more Space) (const_rep []) content"

definition strip_trailing :: "string \<Rightarrow> string" where
  "strip_trailing content = sub (one_or_more Space @ [Eol]) (const_rep []) content"

definition clean_whitespace :: "string \<Rightarrow> string" where
  "clean_whitespace content = strip_trailing (strip_leading (collapse_blank_lines content))"

text \<open>\<^verbatim>\<open># Remove any remaining LaTeX commands (catch-all)\<close>\<close>

definition remove_with_argument :: "string \<Rightarrow> string" where
  "remove_with_argument content =
     sub (One (Lit bsl) # one_or_more Alpha @ lit ''{'' @ [Lazy Dot] @ lit ''}'') (const_rep []) content"

definition remove_bare :: "string \<Rightarrow> string" where
  "remove_bare content = sub (One (Lit bsl) # one_or_more Alpha) (const_rep []) content"

definition remove_remaining_commands :: "string \<Rightarrow> string" where
  "remove_remaining_commands content = remove_bare (remove_with_argument content)"

text \<open>The stages before the equation blocks, and the stages behind the inline math.\<close>

definition early_stages :: "string \<Rightarrow> string" where
  "early_stages content =
     remove_citations (remove_labels (convert_sections (remove_custom_commands
       (remove_comments (remove_document_structure content)))))"

definition late_stages :: "string \<Rightarrow> string" where
  "late_stages content =
     remove_remaining_commands (clean_whitespace (remove_tensor_notation (remove_other_commands
       (remove_tables (remove_figures (remove_formatting content))))))"

text \<open>The whole conversion, ending with \<^verbatim>\<open># Final cleanup\<close>: \<^verbatim>\<open>content.strip()\<close>.\<close>

definition process_latex_file :: "string \<Rightarrow> string" where
  "process_latex_file content =
     strip (late_stages (handle_inline_math (replace_equation_blocks (early_stages content))))"

section \<open>Notions used in the proofs\<close>

text \<open>
  The result of a match without the \<open>bol\<close> flag, and the matcher started with the flag set.
  For a pattern without \<^verbatim>\<open>^\<close> the flag has no influence on the match.
\<close>

definition drop_bol :: "(string \<times> bool \<times> string) option \<Rightarrow> (string \<times> string) option" where
  "drop_bol = map_option (\<lambda>(c, b, r). (c, r))"

definition rm :: "atom list \<Rightarrow> bool \<times> string \<Rightarrow> string \<Rightarrow> (string \<times> string) option" where
  "rm p st s = drop_bol (rmatch p True st s)"

text \<open>
  \<open>absent h body rest\<close>: in the text \<open>body @ rest\<close> the literal \<open>h\<close> starts at no position
  of \<open>body\<close>.
\<close>

fun absent :: "string \<Rightarrow> string \<Rightarrow> string \<Rightarrow> bool" where
  "absent h [] rest = True"
| "absent h (x # xs) rest = (\<not> prefix h (x # xs @ rest) \<and> absent h xs rest)"

text \<open>
  Comment stripping as a recursion on the text: from each \<^verbatim>\<open>%\<close> everything up to, and not
  including, the next line feed is dropped.
\<close>

function cut_comments :: "string \<Rightarrow> string" where
  "cut_comments [] = []"
| "cut_comments (x # xs) =
     (if x = CHR ''%'' then cut_comments (dropWhile (\<lambda>c. c \<noteq> nl) xs) else x # cut_comments xs)"
  by pat_completeness auto
termination
  by (relation "measure length") (auto simp: length_dropWhile_le less_Suc_eq_le)

text \<open>
  A text holds a command token when a backslash is directly followed by a letter of
  \<^verbatim>\<open>[a-zA-Z]\<close>; \<open>no_command\<close> says that it holds none.
\<close>

definition starts_alpha :: "string \<Rightarrow> bool" where
  "starts_alpha s = (case s of [] \<Rightarrow> False | y # ys \<Rightarrow> is_alpha y)"

fun no_command :: "string \<Rightarrow> bool" where
  "no_command [] = True"
| "no_command (x # xs) = ((if x = bsl then \<not> starts_alpha xs else True) \<and> no_command xs)"


text \<open>
  The literal text with which each pattern of the stages before the equation blocks starts
  (the three sectioning commands without their brace).
\<close>

definition early_heads :: "string list" where
  "early_heads =
     [bsl # ''documentclass['', bsl # ''begin{document}'', bsl # ''end{document}'',
      bsl # ''myCover{'', bsl # ''myChapterCover{}'', bsl # ''newpage'',
      bsl # ''section'', bsl # ''subsection'', bsl # ''subsubsection'',
      bsl # ''label{'', bsl # ''cite{'', ''~'' @ bsl # ''cite{'', bsl # ''Cref{'', bsl # ''cref{'']"



text \<open>
  Texts on which the whitespace stage has nothing to do: \<open>tidy_ws b s\<close> says that in \<open>s\<close>,
  read from a position that is a line start when \<open>b\<close> holds, no whitespace character
  stands at a line start, is followed by a line feed or ends the text. So no line starts or
  ends with whitespace and no line is blank.
\<close>

fun tidy_ws :: "bool \<Rightarrow> string \<Rightarrow> bool" where
  "tidy_ws b [] = True"
| "tidy_ws b (x # xs) =
     ((if is_space x then \<not> b \<and> (case xs of [] \<Rightarrow> False | y # ys \<Rightarrow> y \<noteq> nl) else True) \<and>
      tidy_ws (x = nl) xs)"

text \<open>
  Texts on which the inline-math stage has nothing to do: the \<^verbatim>\<open>$\<close> signs are paired from
  the left, and the interior of every pair is unchanged by \<^verbatim>\<open>strip()\<close>.
\<close>

function math_ok :: "string \<Rightarrow> bool" where
  "math_ok [] = True"
| "math_ok (x # xs) =
     (if x = CHR ''$'' \<and> CHR ''$'' \<in> set xs
      then strip (takeWhile (\<lambda>c. c \<noteq> CHR ''$'') xs) = takeWhile (\<lambda>c. c \<noteq> CHR ''$'') xs \<and>
           math_ok (tl (dropWhile (\<lambda>c. c \<noteq> CHR ''$'') xs))
      else math_ok xs)"
  by pat_completeness auto
termination
  by (relation "measure length") (auto simp: length_dropWhile_le less_Suc_eq_le intro: le_trans [OF diff_le_self])

text \<open>A tidy text: nothing to do for the whitespace stage and the inline-math stage.\<close>

definition tidy :: "string \<Rightarrow> bool" where
  "tidy u = (tidy_ws True u \<and> math_ok u)"





text \<open>
  The literal text with which each pattern between the inline math and the catch-all starts,
  and the starts of all patterns before the catch-all.
\<close>

definition late_heads :: "string list" where
  "late_heads =
     [bsl # ''textit{'', bsl # ''textbf{'', bsl # ''text{'', bsl # ''begin{figure}'',
      bsl # ''begin{table}'', bsl # ''begin{tabulary}'', bsl # ''centering'',
      bsl # ''includegraphics['', bsl # ''caption{'', bsl # ''toprule'', bsl # ''midrule'',
      bsl # ''bottomrule'', bsl # ''tensor['', bsl # ''mathbf{'', bsl # ''vec{'']"

definition dedicated_heads :: "string list" where
  "dedicated_heads =
     early_heads @ [bsl # ''begin{equation}'', bsl # ''begin{align}'', bsl # ''begin{split}''] @
     late_heads"

text \<open>
  An inline math interior that the stages before the inline math cannot touch when \<^verbatim>\<open>$\<close> and
  the text \<open>post\<close> follow it.
\<close>

definition untouched_math :: "string \<Rightarrow> string \<Rightarrow> bool" where
  "untouched_math m post =
     (CHR ''%'' \<notin> set m \<and> CHR ''$'' \<notin> set m \<and>
      list_all (\<lambda>h. absent h m (''$'' @ post))
        (early_heads @ [bsl # ''begin{equation}'', bsl # ''begin{align}'', bsl # ''begin{split}'']))"

text \<open>
  A command with one argument in braces, and the commands that no stage before the catch-all
  touches when the text \<open>post\<close> follows: the name is a nonempty run of letters, the argument
  holds no closing brace, line feed, \<^verbatim>\<open>%\<close> or \<^verbatim>\<open>$\<close>, and no pattern of an earlier stage starts
  inside the command.
\<close>

definition command :: "string \<Rightarrow> string \<Rightarrow> string" where
  "command name arg = bsl # name @ ''{'' @ arg @ ''}''"

definition unknown_command :: "string \<Rightarrow> string \<Rightarrow> string \<Rightarrow> bool" where
  "unknown_command name arg post =
     (name \<noteq> [] \<and> list_all is_alpha name \<and>
      CHR ''}'' \<notin> set arg \<and> nl \<notin> set arg \<and> CHR ''%'' \<notin> set arg \<and> CHR ''$'' \<notin> set arg \<and>
      list_all (\<lambda>h. absent h (command name arg) post) dedicated_heads)"

section \<open>Facts about the matcher and the substitution\<close>

lemma lit_Nil [simp]: "lit [] = []" by (simp add: lit_def)
lemma lit_Cons [simp]: "lit (c # s) = One (Lit c) # lit s" by (simp add: lit_def)
lemma lit_append: "lit (a @ b) = lit a @ lit b" by (simp add: lit_def)
lemma cmd_lit: "cmd name = lit (bsl # name)" by (simp add: cmd_def)

lemma rmatch_lit_None: "\<not> prefix h s \<Longrightarrow> rmatch (lit h @ p) b st s = None"
proof (induction h arbitrary: s b st)
  case Nil
  then show ?case by simp
next
  case (Cons c h)
  then show ?case by (cases s) auto
qed

lemma drop_bol_simps [simp]: "drop_bol None = None" "drop_bol (Some (c, b, r)) = Some (c, r)"
  by (simp_all add: drop_bol_def)

lemma drop_bol_None [simp]: "drop_bol x = None \<longleftrightarrow> x = None"
  by (simp add: drop_bol_def)

lemma drop_bol_None2 [simp]: "None = drop_bol x \<longleftrightarrow> x = None"
  by (simp add: drop_bol_def)

lemma drop_bol_Some: "drop_bol x = Some (c, r) \<longleftrightarrow> (\<exists>b. x = Some (c, b, r))"
  by (cases x) (auto simp: drop_bol_def)

lemma rmatch_bol:
  "Bol \<notin> set p \<Longrightarrow> drop_bol (rmatch p b st s) = drop_bol (rmatch p True st s)"
proof (induction p b st s rule: rmatch.induct)
  case (5 c p bol st x xs)
  show ?case
  proof (cases "cls_ok c x")
    case True
    show ?thesis
    proof (cases "rmatch (Star c # p) (x = nl) (take_char st x) xs")
      case None
      then show ?thesis using True 5 by simp
    next
      case (Some r)
      then show ?thesis using True by simp
    qed
  next
    case False
    then show ?thesis using 5 by simp
  qed
next
  case (7 c p bol st x xs)
  have b: "drop_bol (rmatch p bol st (x # xs)) = drop_bol (rmatch p True st (x # xs))"
    using 7 by simp
  show ?case
  proof (cases "rmatch p bol st (x # xs)")
    case None
    then have "rmatch p True st (x # xs) = None" using b by simp
    then show ?thesis using None by simp
  next
    case (Some r)
    then obtain r' where "rmatch p True st (x # xs) = Some r'" using b
      by (cases "rmatch p True st (x # xs)") auto
    then show ?thesis using Some b by simp
  qed
qed simp_all

lemma re_sub_bol: "Bol \<notin> set p \<Longrightarrow> re_sub p rep b s = re_sub p rep True s"
proof (induction s arbitrary: b rule: length_induct)
  case (1 s)
  note eq = rmatch_bol [OF 1(2), of b "(False, [])" s]
  show ?case
  proof (cases s)
    case Nil
    show ?thesis
    proof (cases "rmatch p b (False, []) []")
      case None
      then have "rmatch p True (False, []) [] = None" using eq Nil by simp
      then show ?thesis using None Nil by simp
    next
      case (Some t)
      obtain cap b1 r where t: "t = (cap, b1, r)" by (cases t) auto
      have "drop_bol (rmatch p True (False, []) []) = Some (cap, r)"
        using eq Some t Nil by simp
      then obtain b2 where "rmatch p True (False, []) [] = Some (cap, b2, r)"
        by (auto simp: drop_bol_Some)
      then show ?thesis using Some t Nil by simp
    qed
  next
    case (Cons x xs)
    have ih: "re_sub p rep b' r = re_sub p rep True r" if "length r < length s" for b' r
      using 1 that by blast
    show ?thesis
    proof (cases "rmatch p b (False, []) (x # xs)")
      case None
      then have "rmatch p True (False, []) (x # xs) = None" using eq Cons by simp
      then show ?thesis using None Cons ih [of xs "x = nl"] by simp
    next
      case (Some t)
      obtain cap b1 r where t: "t = (cap, b1, r)" by (cases t) auto
      have "drop_bol (rmatch p True (False, []) (x # xs)) = Some (cap, r)"
        using eq Some t Cons by simp
      then obtain b2 where s2: "rmatch p True (False, []) (x # xs) = Some (cap, b2, r)"
        by (auto simp: drop_bol_Some)
      show ?thesis
      proof (cases "length r < length (x # xs)")
        case True
        then show ?thesis using Some t s2 Cons ih [of r b1] ih [of r b2] by simp
      next
        case False
        then show ?thesis using Some t s2 Cons ih [of xs "x = nl"] by simp
      qed
    qed
  qed
qed

lemma Bol_lit [simp]: "Bol \<notin> set (lit h)" by (auto simp: lit_def)
lemma Bol_cmd [simp]: "Bol \<notin> set (cmd h)" by (auto simp: cmd_def)
lemma Bol_one_or_more [simp]: "Bol \<notin> set (one_or_more c)" by (auto simp: one_or_more_def)

lemma rm_Nil [simp]: "rm [] st s = Some (snd st, s)"
  by (simp add: rm_def)

lemma rm_One_Nil [simp]: "rm (One c # p) st [] = None"
  by (simp add: rm_def)

lemma rm_One_Cons:
  "Bol \<notin> set p \<Longrightarrow> rm (One c # p) st (x # xs) = (if cls_ok c x then rm p (take_char st x) xs else None)"
  using rmatch_bol [of p "x = nl" "take_char st x" xs] by (simp add: rm_def)

lemma rm_Star_Nil [simp]: "rm (Star c # p) st [] = rm p st []"
  by (simp add: rm_def)

lemma rm_Star_Cons:
  "Bol \<notin> set p \<Longrightarrow> rm (Star c # p) st (x # xs) =
     (if cls_ok c x then
        (case rm (Star c # p) (take_char st x) xs of Some r \<Rightarrow> Some r | None \<Rightarrow> rm p st (x # xs))
      else rm p st (x # xs))"
  using rmatch_bol [of "Star c # p" "x = nl" "take_char st x" xs]
  by (cases "rmatch (Star c # p) (x = nl) (take_char st x) xs")
     (auto simp: rm_def split: option.splits)

lemma rm_Lazy_Nil [simp]: "rm (Lazy c # p) st [] = rm p st []"
  by (simp add: rm_def)

lemma rm_Lazy_Cons:
  "Bol \<notin> set p \<Longrightarrow> rm (Lazy c # p) st (x # xs) =
     (case rm p st (x # xs) of Some r \<Rightarrow> Some r
      | None \<Rightarrow> if cls_ok c x then rm (Lazy c # p) (take_char st x) xs else None)"
  using rmatch_bol [of "Lazy c # p" "x = nl" "take_char st x" xs]
  by (cases "rmatch p True st (x # xs)") (auto simp: rm_def)

lemma rm_Eol_Nil [simp]: "rm (Eol # p) st [] = rm p st []"
  by (simp add: rm_def)

lemma rm_Eol_Cons [simp]: "rm (Eol # p) st (x # xs) = (if x = nl then rm p st (x # xs) else None)"
  by (simp add: rm_def)

lemma rm_Open [simp]: "rm (Open # p) st s = rm p (True, []) s"
  by (simp add: rm_def)

lemma rm_Close [simp]: "rm (Close # p) st s = rm p (False, snd st) s"
  by (simp add: rm_def)

lemma rm_lit_None: "\<not> prefix h s \<Longrightarrow> rm (lit h @ p) st s = None"
  by (simp add: rm_def rmatch_lit_None)

lemma rm_lit: "Bol \<notin> set p \<Longrightarrow> rm (lit h @ p) (False, cap) (h @ s) = rm p (False, cap) s"
  by (induction h) (simp_all add: rm_One_Cons)

lemma rm_lit_open: "Bol \<notin> set p \<Longrightarrow> rm (lit h @ p) (True, cap) (h @ s) = rm p (True, cap @ h) s"
  by (induction h arbitrary: cap) (simp_all add: rm_One_Cons)

lemma sub_Nil: "rm p (False, []) [] = None \<Longrightarrow> sub p rep [] = []"
  by (simp add: sub_def rm_def)

lemma sub_miss:
  "Bol \<notin> set p \<Longrightarrow> rm p (False, []) (x # xs) = None \<Longrightarrow> sub p rep (x # xs) = x # sub p rep xs"
  using re_sub_bol [of p rep "x = nl" xs] by (simp add: sub_def rm_def)

lemma sub_hit:
  assumes "Bol \<notin> set p" and "rm p (False, []) s = Some (cap, r)" and "length r < length s"
  shows "sub p rep s = rep cap @ sub p rep r"
proof -
  obtain b where m: "rmatch p True (False, []) s = Some (cap, b, r)"
    using assms(2) by (auto simp: rm_def drop_bol_Some)
  obtain x xs where s: "s = x # xs" using assms(3) by (cases s) auto
  show ?thesis using m s assms(3) re_sub_bol [OF assms(1), of rep b r]
    by (simp add: sub_def)
qed

lemma absent_append: "absent h (a @ b) r = (absent h a (b @ r) \<and> absent h b r)"
  by (induction a) auto

lemma absent_hd: "h \<noteq> [] \<Longrightarrow> hd h \<notin> set body \<Longrightarrow> absent h body rest"
  by (induction body) (auto simp: prefix_def neq_Nil_conv)

lemma sub_skip:
  "Bol \<notin> set p \<Longrightarrow> absent h body rest \<Longrightarrow>
   sub (lit h @ p) rep (body @ rest) = body @ sub (lit h @ p) rep rest"
proof (induction body)
  case Nil
  then show ?case by simp
next
  case (Cons x xs)
  then have "rm (lit h @ p) (False, []) (x # xs @ rest) = None"
    by (simp add: rm_lit_None)
  then show ?case using Cons by (simp add: sub_miss)
qed

lemma sub_id:
  "Bol \<notin> set p \<Longrightarrow> h \<noteq> [] \<Longrightarrow> absent h s [] \<Longrightarrow> sub (lit h @ p) rep s = s"
  using sub_skip [of p h s "[]" rep] sub_Nil [of "lit h @ p" rep]
  by (simp add: rm_lit_None)

lemma rm_Lazy_skip:
  assumes "Bol \<notin> set q" and "\<forall>x\<in>set body. cls_ok c x" and "absent h body rest"
  shows "rm (Lazy c # lit h @ q) (False, cap) (body @ rest) = rm (Lazy c # lit h @ q) (False, cap) rest"
  using assms(2,3)
proof (induction body)
  case Nil
  then show ?case by simp
next
  case (Cons x xs)
  then have "rm (lit h @ q) (False, cap) (x # xs @ rest) = None"
    by (simp add: rm_lit_None)
  then show ?case using Cons assms(1) by (simp add: rm_Lazy_Cons)
qed

lemma rm_Lazy_skip_open:
  assumes "Bol \<notin> set q" and "\<forall>x\<in>set body. cls_ok c x" and "absent h body rest"
  shows "rm (Lazy c # Close # lit h @ q) (True, acc) (body @ rest)
       = rm (Lazy c # Close # lit h @ q) (True, acc @ body) rest"
  using assms(2,3)
proof (induction body arbitrary: acc)
  case Nil
  then show ?case by simp
next
  case (Cons x xs)
  then have "rm (Close # lit h @ q) (True, acc) (x # xs @ rest) = None"
    by (simp add: rm_lit_None)
  then show ?case using Cons assms(1) by (simp add: rm_Lazy_Cons)
qed

lemma rm_Lazy_hit:
  assumes "Bol \<notin> set q" and "h \<noteq> []" and "rm q (False, cap) post = Some r"
  shows "rm (Lazy c # lit h @ q) (False, cap) (h @ post) = Some r"
proof -
  obtain x xs where h: "h = x # xs" using assms(2) by (cases h) auto
  have "rm (lit h @ q) (False, cap) (h @ post) = Some r"
    using assms by (simp add: rm_lit)
  then show ?thesis using assms(1) unfolding h by (simp add: rm_Lazy_Cons)
qed

lemma rm_Lazy_hit_open:
  assumes "Bol \<notin> set q" and "h \<noteq> []" and "rm q (False, acc) post = Some r"
  shows "rm (Lazy c # Close # lit h @ q) (True, acc) (h @ post) = Some r"
proof -
  obtain x xs where h: "h = x # xs" using assms(2) by (cases h) auto
  have "rm (Close # lit h @ q) (True, acc) (h @ post) = Some r"
    using assms by (simp add: rm_lit)
  then show ?thesis using assms(1) unfolding h by (simp add: rm_Lazy_Cons)
qed

lemma rm_Star_run:
  assumes "Bol \<notin> set q" and "\<forall>x\<in>set run. cls_ok c x" and "rm (Star c # q) (False, cap) rest = Some r"
  shows "rm (Star c # q) (False, cap) (run @ rest) = Some r"
  using assms(2)
proof (induction run)
  case Nil
  then show ?case using assms(3) by simp
next
  case (Cons x xs)
  then show ?case using assms(1) by (simp add: rm_Star_Cons)
qed

text \<open>
  A pattern that starts with a single-character item, directly or behind \<^verbatim>\<open>^\<close>, takes at
  least one character. Every pattern of the source has this shape, so the branch of
  \<open>re_sub\<close> for an empty match is never taken in the converter.
\<close>

lemma rmatch_length:
  "rmatch p b st s = Some (cap, b', r) \<Longrightarrow> length r \<le> length s"
proof (induction p b st s arbitrary: cap b' r rule: rmatch.induct)
  case (3 c p bol st x xs)
  then have "rmatch p (x = nl) (take_char st x) xs = Some (cap, b', r)" and "cls_ok c x"
    by (auto split: if_splits)
  from 3(1) [OF this(2,1)] show ?case by simp
next
  case (5 c p bol st x xs)
  show ?case
  proof (cases "cls_ok c x")
    case True
    show ?thesis
    proof (cases "rmatch (Star c # p) (x = nl) (take_char st x) xs")
      case None
      then have "rmatch p bol st (x # xs) = Some (cap, b', r)" using 5(4) True by simp
      from 5(2) [OF True None this] show ?thesis .
    next
      case (Some t)
      then have "rmatch (Star c # p) (x = nl) (take_char st x) xs = Some (cap, b', r)"
        using 5(4) True by simp
      from 5(1) [OF True this] show ?thesis by simp
    qed
  next
    case False
    then have "rmatch p bol st (x # xs) = Some (cap, b', r)" using 5(4) by simp
    from 5(3) [OF False this] show ?thesis .
  qed
next
  case (7 c p bol st x xs)
  show ?case
  proof (cases "rmatch p bol st (x # xs)")
    case None
    then have ok: "cls_ok c x" and m: "rmatch (Lazy c # p) (x = nl) (take_char st x) xs = Some (cap, b', r)"
      using 7(3) by (auto split: if_splits)
    from 7(2) [OF None ok m] show ?thesis by simp
  next
    case (Some t)
    then have "rmatch p bol st (x # xs) = Some (cap, b', r)" using 7(3) by simp
    from 7(1) [OF this] show ?thesis .
  qed
next
  case (8 p bol st s)
  then show ?case by (auto split: if_splits)
next
  case (10 p bol st x xs)
  then show ?case by (simp split: if_splits)
next
  case (11 p bol st s)
  then have "rmatch p bol (True, []) s = Some (cap, b', r)" by simp
  from 11(1) [OF this] show ?case .
next
  case (12 p bol st s)
  then have "rmatch p bol (False, snd st) s = Some (cap, b', r)" by simp
  from 12(1) [OF this] show ?case .
qed simp_all

lemma rmatch_consumes:
  assumes "rmatch (One c # p) b st s = Some (cap, b', r)"
  shows "length r < length s"
proof (cases s)
  case Nil
  then show ?thesis using assms by simp
next
  case (Cons x xs)
  then have "rmatch p (x = nl) (take_char st x) xs = Some (cap, b', r)"
    using assms by (simp split: if_splits)
  then show ?thesis using rmatch_length Cons by fastforce
qed

lemma rmatch_Bol_consumes:
  assumes "rmatch (Bol # One c # p) b st s = Some (cap, b', r)"
  shows "length r < length s"
proof -
  have "rmatch (One c # p) b st s = Some (cap, b', r)"
    using assms by (simp split: if_splits)
  then show ?thesis by (rule rmatch_consumes)
qed

section \<open>Concrete scenarios\<close>

text \<open>
  Claim C7. The text \<^verbatim>\<open>\section{Intro}\label{sec:intro}\<close>, a line feed, \<^verbatim>\<open>Hello \textbf{world}.\<close>
  is converted to \<^verbatim>\<open># Intro\<close>, a line feed, \<^verbatim>\<open>Hello world.\<close>: the labelled section becomes a
  heading of depth 1 without its label, and the bold command is replaced by its argument.
\<close>

theorem scenario_labeled_section_and_bold:
  "process_latex_file (bsl # ''section{Intro}'' @ bsl # ''label{sec:intro}\<newline>Hello '' @
                       bsl # ''textbf{world}.'')
     = ''# Intro\<newline>Hello world.''"
  by code_simp

text \<open>
  Claim C4. A citation that follows a tilde should leave nothing behind. The source deletes
  \<^verbatim>\<open>\cite{...}\<close> first and looks for \<^verbatim>\<open>~\cite{...}\<close> only afterwards, when no \<^verbatim>\<open>\cite\<close> is left,
  so the tilde stays: \<^verbatim>\<open>see~\cite{foo}.\<close> is converted to \<^verbatim>\<open>see~.\<close>
\<close>

theorem tilde_before_citation_remains:
  "process_latex_file (''see~'' @ bsl # ''cite{foo}.'') = ''see~.''"
  by code_simp

text \<open>
  Claim C8. Three blank lines between two paragraphs should become one blank line. The
  first substitution of the whitespace stage does leave two line feeds, but \<^verbatim>\<open>^\s+\<close> then
  matches the second of them (\<^verbatim>\<open>\s\<close> matches a line feed), so no blank line is left.
\<close>

theorem blank_lines_between_paragraphs_lost:
  "process_latex_file ''First.\<newline>\<newline>\<newline>\<newline>Second.'' = ''First.\<newline>Second.''"
  by code_simp

section \<open>Comments\<close>

lemma rm_star_dot_eol:
  "rm [Star Dot, Eol] (False, []) s = Some ([], dropWhile (\<lambda>c. c \<noteq> nl) s)"
  by (induction s) (simp_all add: rm_Star_Cons)

lemma rm_comment:
  "rm (lit ''%'' @ [Star Dot, Eol]) (False, []) (x # xs) =
     (if x = CHR ''%'' then Some ([], dropWhile (\<lambda>c. c \<noteq> nl) xs) else None)"
  by (simp add: rm_One_Cons rm_star_dot_eol)

text \<open>
  Claim C6, as stated: a \<^verbatim>\<open>%\<close> that follows a backslash does not start a comment. The
  pattern \<^verbatim>\<open>%.*$\<close> does not look at the character before the \<^verbatim>\<open>%\<close>: of \<^verbatim>\<open>50\% of x\<close> only
  \<^verbatim>\<open>50\<close> and the backslash remain.
\<close>

theorem escaped_percent_starts_comment:
  "remove_comments (''50'' @ bsl # ''% of x'') = ''50'' @ [bsl]"
  by code_simp

text \<open>
  Claim C6, amended: the comment stage removes, for every \<^verbatim>\<open>%\<close> of the text, escaped or not,
  exactly the characters from that \<^verbatim>\<open>%\<close> up to the end of its line; the line feed and all
  other characters stay.
\<close>

theorem remove_comments_cut: "remove_comments s = cut_comments s"
proof (induction s rule: cut_comments.induct)
  case 1
  show ?case by (simp add: remove_comments_def sub_Nil)
next
  case (2 x xs)
  show ?case
  proof (cases "x = CHR ''%''")
    case True
    have "length (dropWhile (\<lambda>c. c \<noteq> nl) xs) < length (x # xs)"
      by (simp add: length_dropWhile_le less_Suc_eq_le)
    then have "sub (lit ''%'' @ [Star Dot, Eol]) (const_rep []) (x # xs)
        = const_rep [] [] @ sub (lit ''%'' @ [Star Dot, Eol]) (const_rep []) (dropWhile (\<lambda>c. c \<noteq> nl) xs)"
      using True by (intro sub_hit) (simp_all add: rm_comment del: lit_Cons)
    then show ?thesis using 2(1) [OF True] True
      by (simp add: remove_comments_def const_rep_def)
  next
    case False
    then have "sub (lit ''%'' @ [Star Dot, Eol]) (const_rep []) (x # xs)
        = x # sub (lit ''%'' @ [Star Dot, Eol]) (const_rep []) xs"
      by (intro sub_miss) (simp_all add: rm_comment del: lit_Cons)
    then show ?thesis using 2(2) [OF False] False
      by (simp add: remove_comments_def)
  qed
qed

section \<open>No command token in the output\<close>

lemma rm_star_alpha:
  "rm [Star Alpha] (False, []) s = Some ([], dropWhile is_alpha s)"
  by (induction s) (simp_all add: rm_Star_Cons)

lemma rm_bare:
  "rm (One (Lit bsl) # one_or_more Alpha) (False, []) (x # xs) =
     (if x = bsl \<and> starts_alpha xs then Some ([], dropWhile is_alpha xs) else None)"
  by (cases xs) (simp_all add: rm_One_Cons rm_star_alpha one_or_more_def starts_alpha_def)

lemma remove_bare_Nil [simp]: "remove_bare [] = []"
  by (simp add: remove_bare_def sub_Nil)

lemma remove_bare_Cons:
  "remove_bare (x # xs) =
     (if x = bsl \<and> starts_alpha xs then remove_bare (dropWhile is_alpha xs) else x # remove_bare xs)"
proof (cases "x = bsl \<and> starts_alpha xs")
  case True
  have "length (dropWhile is_alpha xs) < length (x # xs)"
    by (simp add: length_dropWhile_le less_Suc_eq_le)
  then have "sub (One (Lit bsl) # one_or_more Alpha) (const_rep []) (x # xs)
      = const_rep [] [] @ sub (One (Lit bsl) # one_or_more Alpha) (const_rep []) (dropWhile is_alpha xs)"
    using True by (intro sub_hit) (simp_all add: rm_bare)
  then show ?thesis using True by (simp add: remove_bare_def const_rep_def)
next
  case False
  then have "sub (One (Lit bsl) # one_or_more Alpha) (const_rep []) (x # xs)
      = x # sub (One (Lit bsl) # one_or_more Alpha) (const_rep []) xs"
    by (intro sub_miss) (simp_all add: rm_bare)
  then show ?thesis using False by (auto simp add: remove_bare_def)
qed

lemma starts_alpha_dropWhile [simp]: "\<not> starts_alpha (dropWhile is_alpha s)"
  by (induction s) (simp_all add: starts_alpha_def)

lemma remove_bare_clean:
  "no_command (remove_bare s) \<and> (\<not> starts_alpha s \<longrightarrow> \<not> starts_alpha (remove_bare s))"
proof (induction s rule: length_induct)
  case (1 s)
  show ?case
  proof (cases s)
    case Nil
    then show ?thesis by (simp add: starts_alpha_def)
  next
    case (Cons x xs)
    show ?thesis
    proof (cases "x = bsl \<and> starts_alpha xs")
      case True
      have "length (dropWhile is_alpha xs) < length s"
        using Cons by (simp add: length_dropWhile_le less_Suc_eq_le)
      then have "no_command (remove_bare (dropWhile is_alpha xs)) \<and>
                 \<not> starts_alpha (remove_bare (dropWhile is_alpha xs))"
        using 1 by auto
      then show ?thesis using True Cons by (simp add: remove_bare_Cons)
    next
      case False
      have ih: "no_command (remove_bare xs) \<and> (\<not> starts_alpha xs \<longrightarrow> \<not> starts_alpha (remove_bare xs))"
        using 1 Cons by auto
      have "remove_bare s = x # remove_bare xs" using False Cons by (auto simp add: remove_bare_Cons)
      moreover have "starts_alpha (x # remove_bare xs) = starts_alpha s"
        using Cons by (simp add: starts_alpha_def)
      moreover have "no_command (x # remove_bare xs)"
        using ih False by auto
      ultimately show ?thesis by simp
    qed
  qed
qed

lemma no_command_append: "no_command (a @ b) \<Longrightarrow> no_command a \<and> no_command b"
proof (induction a)
  case Nil
  then show ?case by simp
next
  case (Cons x a)
  then show ?case by (cases a) (auto simp: starts_alpha_def split: if_splits)
qed

lemma no_command_strip: "no_command s \<Longrightarrow> no_command (strip s)"
proof -
  assume a: "no_command s"
  let ?d = "dropWhile is_space s"
  have "s = takeWhile is_space s @ ?d" by simp
  then have d: "no_command ?d" using a no_command_append by metis
  have "rev ?d = takeWhile is_space (rev ?d) @ dropWhile is_space (rev ?d)" by simp
  then have "?d = rev (dropWhile is_space (rev ?d)) @ rev (takeWhile is_space (rev ?d))"
    by (metis rev_append rev_rev_ident)
  then have "no_command (rev (dropWhile is_space (rev ?d)))"
    using d no_command_append by metis
  then show ?thesis by (simp add: strip_def)
qed

text \<open>
  Claim C10. For every input text the output holds no backslash that is directly followed
  by a letter: the last substitution deletes every such token, a deletion brings no letter
  behind an earlier backslash, and the final \<^verbatim>\<open>strip()\<close> only shortens the text at its ends.
\<close>

theorem output_has_no_command: "no_command (process_latex_file t)"
  unfolding process_latex_file_def late_stages_def remove_remaining_commands_def
  by (intro no_command_strip conjunct1 [OF remove_bare_clean])

lemma rm_inline_math:
  assumes "CHR ''$'' \<notin> set m"
  shows "rm (lit ''$'' @ [Open, Lazy (Non CHR ''$''), Close] @ lit ''$'') (False, []) (''$'' @ m @ ''$'' @ post)
       = Some (m, post)"
proof -
  have a: "absent ''$'' m (''$'' @ post)" using assms by (simp add: absent_hd)
  have b: "\<forall>x\<in>set m. cls_ok (Non CHR ''$'') x" using assms by auto
  have "rm (Lazy (Non CHR ''$'') # Close # lit ''$'' @ []) (True, []) (m @ ''$'' @ post)
      = rm (Lazy (Non CHR ''$'') # Close # lit ''$'' @ []) (True, [] @ m) (''$'' @ post)"
    by (rule rm_Lazy_skip_open [OF _ b a]) simp
  also have "\<dots> = Some (m, post)"
    by (rule rm_Lazy_hit_open) simp_all
  finally show ?thesis by (simp add: rm_One_Cons)
qed

section \<open>Stages that find nothing\<close>

lemma sub_id_cmd:
  "Bol \<notin> set q \<Longrightarrow> absent (bsl # name) s [] \<Longrightarrow> sub (cmd name @ q) rep s = s"
  using sub_id [of q "bsl # name" s rep] by (simp add: cmd_def)

lemma labeled_heading_cmd:
  "labeled_heading name = cmd name @ (lit ''{'' @ [Open, Lazy Dot, Close] @ lit ''}'' @ [Star Space] @
     cmd ''label{'' @ [Lazy Dot] @ lit ''}'')"
  by (simp add: labeled_heading_def)

lemma plain_heading_cmd:
  "plain_heading name = cmd name @ (lit ''{'' @ [Open, Lazy Dot, Close] @ lit ''}'')"
  by (simp add: plain_heading_def)

lemma early_stages_id:
  assumes "CHR ''%'' \<notin> set s" and "list_all (\<lambda>h. absent h s []) early_heads"
  shows "early_stages s = s"
proof -
  have a: "absent (bsl # ''documentclass['') s []" "absent (bsl # ''begin{document}'') s []"
    "absent (bsl # ''end{document}'') s []" "absent (bsl # ''myCover{'') s []"
    "absent (bsl # ''myChapterCover{}'') s []" "absent (bsl # ''newpage'') s []"
    "absent (bsl # ''section'') s []" "absent (bsl # ''subsection'') s []"
    "absent (bsl # ''subsubsection'') s []" "absent (bsl # ''label{'') s []"
    "absent (bsl # ''cite{'') s []" "absent (''~'' @ bsl # ''cite{'') s []"
    "absent (bsl # ''Cref{'') s []" "absent (bsl # ''cref{'') s []"
    using assms(2) by (simp_all add: early_heads_def)
  have 1: "remove_document_structure s = s"
    using a(1-3) sub_id_cmd [of "[]"] by (simp add: remove_document_structure_def sub_id_cmd)
  have 2: "remove_comments s = s"
    using assms(1) by (simp add: remove_comments_def sub_id absent_hd del: lit_Cons)
  have 3: "remove_custom_commands s = s"
    using a(4-6) sub_id_cmd [of "[]"] by (simp add: remove_custom_commands_def sub_id_cmd)
  have 4: "convert_sections s = s"
    using a(7-9)
    by (simp add: convert_sections_def labeled_heading_cmd plain_heading_cmd sub_id_cmd)
  have 5: "remove_labels s = s"
    using a(10) by (simp add: remove_labels_def sub_id_cmd)
  have t: "sub (lit ''~'' @ cmd ''cite{'' @ [Lazy Dot] @ lit ''}'') (const_rep []) s = s"
    using a(12) sub_id [of "[Lazy Dot] @ lit ''}''" "''~'' @ bsl # ''cite{''" s "const_rep []"]
    by (simp add: cmd_def)
  have 6: "remove_citations s = s"
    using a(11,13,14) t by (simp add: remove_citations_def sub_id_cmd)
  show ?thesis by (simp add: early_stages_def 1 2 3 4 5 6)
qed

lemma environment_lit:
  "environment k = lit (bsl # ''begin{'' @ k @ ''}'') @ (Lazy DotAll # lit (bsl # ''end{'' @ k @ ''}'') @ [])"
  by (simp add: environment_def cmd_def lit_append)

lemma environment_miss:
  "absent (bsl # ''begin{'' @ k @ ''}'') s [] \<Longrightarrow> sub (environment k) rep s = s"
  unfolding environment_lit by (rule sub_id) simp_all

lemma unwrap_lit:
  "unwrap name = lit (bsl # name @ ''{'') @ ([Open, Star (Non CHR ''}''), Close] @ lit ''}'')"
  by (simp add: unwrap_def cmd_def lit_append)

lemma unwrap_miss: "absent (bsl # name @ ''{'') s [] \<Longrightarrow> sub (unwrap name) rep s = s"
  unfolding unwrap_lit by (rule sub_id) simp_all

lemma late_commands_id:
  assumes "list_all (\<lambda>h. absent h s []) late_heads"
  shows "remove_tensor_notation (remove_other_commands (remove_tables (remove_figures
           (remove_formatting s)))) = s"
proof -
  have a: "absent (bsl # ''textit{'') s []" "absent (bsl # ''textbf{'') s []"
    "absent (bsl # ''text{'') s []" "absent (bsl # ''begin{figure}'') s []"
    "absent (bsl # ''begin{table}'') s []" "absent (bsl # ''begin{tabulary}'') s []"
    "absent (bsl # ''centering'') s []" "absent (bsl # ''includegraphics['') s []"
    "absent (bsl # ''caption{'') s []" "absent (bsl # ''toprule'') s []"
    "absent (bsl # ''midrule'') s []" "absent (bsl # ''bottomrule'') s []"
    "absent (bsl # ''tensor['') s []" "absent (bsl # ''mathbf{'') s []"
    "absent (bsl # ''vec{'') s []"
    using assms by (simp_all add: late_heads_def)
  have 1: "remove_formatting s = s"
    using a(1-3) unwrap_miss [of "''textit''"] unwrap_miss [of "''textbf''"] unwrap_miss [of "''text''"]
    by (simp add: remove_formatting_def)
  have 2: "remove_figures s = s"
    using a(4) environment_miss [of "''figure''"] by (simp add: remove_figures_def)
  have 3: "remove_tables s = s"
    using a(5,6) environment_miss [of "''table''"] environment_miss [of "''tabulary''"]
    by (simp add: remove_tables_def)
  have 4: "remove_other_commands s = s"
    using a(7-12) sub_id_cmd [of "[]"] by (simp add: remove_other_commands_def sub_id_cmd)
  have 5: "remove_tensor_notation s = s"
    using a(13-15) unwrap_miss [of "''mathbf''"] unwrap_miss [of "''vec''"]
    by (simp add: remove_tensor_notation_def sub_id_cmd)
  show ?thesis by (simp add: 1 2 3 4 5)
qed

lemma no_dollar_math: "CHR ''$'' \<notin> set s \<Longrightarrow> handle_inline_math s = s"
  unfolding handle_inline_math_def by (rule sub_id) (simp_all add: absent_hd)

section \<open>Texts without command tokens\<close>

lemma rm_cmd_None:
  assumes "Bol \<notin> set q" and "\<forall>y. cls_ok cl y \<longrightarrow> is_alpha y"
    and "x = bsl \<longrightarrow> \<not> starts_alpha xs"
  shows "rm (One (Lit bsl) # One cl # q) st (x # xs) = None"
  using assms by (cases xs) (auto simp: rm_One_Cons starts_alpha_def)

lemma sub_no_command:
  assumes "Bol \<notin> set q" and "\<forall>y. cls_ok cl y \<longrightarrow> is_alpha y" and "no_command s"
  shows "sub (One (Lit bsl) # One cl # q) rep s = s"
  using assms(3)
proof (induction s)
  case Nil
  show ?case by (rule sub_Nil) simp
next
  case (Cons x xs)
  have "rm (One (Lit bsl) # One cl # q) (False, []) (x # xs) = None"
    using Cons(2) by (intro rm_cmd_None assms) (auto split: if_splits)
  then have "sub (One (Lit bsl) # One cl # q) rep (x # xs) = x # sub (One (Lit bsl) # One cl # q) rep xs"
    using assms(1) by (intro sub_miss) simp_all
  then show ?case using Cons by simp
qed


lemma no_command_tl: "no_command (x # xs) \<Longrightarrow> no_command xs"
  by simp

lemma sub_tilde_no_command:
  assumes "Bol \<notin> set q" and "is_alpha c" and "no_command s"
  shows "sub (One (Lit a) # One (Lit bsl) # One (Lit c) # q) rep s = s"
  using assms(3)
proof (induction s)
  case Nil
  show ?case by (rule sub_Nil) simp
next
  case (Cons x xs)
  have "rm (One (Lit bsl) # One (Lit c) # q) (take_char (False, []) x) xs = None"
  proof (cases xs)
    case Nil
    then show ?thesis by simp
  next
    case (Cons y ys)
    have "no_command (y # ys)" using Cons.prems Cons by simp
    then show ?thesis unfolding Cons
      by (intro rm_cmd_None assms(1)) (use assms(2) in \<open>auto split: if_splits\<close>)
  qed
  then have "rm (One (Lit a) # One (Lit bsl) # One (Lit c) # q) (False, []) (x # xs) = None"
    using assms(1) by (simp add: rm_One_Cons)
  then have "sub (One (Lit a) # One (Lit bsl) # One (Lit c) # q) rep (x # xs)
      = x # sub (One (Lit a) # One (Lit bsl) # One (Lit c) # q) rep xs"
    using assms(1) by (intro sub_miss) simp_all
  then show ?case using Cons by simp
qed

lemma cmd_no_command:
  "Bol \<notin> set q \<Longrightarrow> is_alpha c \<Longrightarrow> no_command s \<Longrightarrow> sub (cmd (c # name) @ q) rep s = s"
  using sub_no_command [of "lit name @ q" "Lit c" s rep] by (simp add: cmd_def)

lemma tilde_cmd_no_command:
  "Bol \<notin> set q \<Longrightarrow> is_alpha c \<Longrightarrow> no_command s \<Longrightarrow>
   sub (One (Lit a) # cmd (c # name) @ q) rep s = s"
  using sub_tilde_no_command [of "lit name @ q" c s a rep] by (simp add: cmd_def)

lemma cmd_no_command_end:
  "is_alpha c \<Longrightarrow> no_command s \<Longrightarrow> sub (cmd (c # name)) rep s = s"
  using cmd_no_command [of "[]" c s name rep] by simp

lemma letters [simp]:
  "is_alpha CHR ''b''" "is_alpha CHR ''c''" "is_alpha CHR ''d''" "is_alpha CHR ''e''"
  "is_alpha CHR ''f''" "is_alpha CHR ''i''" "is_alpha CHR ''l''" "is_alpha CHR ''m''"
  "is_alpha CHR ''n''" "is_alpha CHR ''r''" "is_alpha CHR ''s''" "is_alpha CHR ''t''" "is_alpha CHR ''v''"
  "is_alpha CHR ''C''"
  by (simp_all add: is_alpha_def)

lemma no_command_structure: "no_command s \<Longrightarrow> remove_document_structure s = s"
  by (simp add: remove_document_structure_def cmd_no_command cmd_no_command_end)

lemma no_command_comments: "CHR ''%'' \<notin> set s \<Longrightarrow> remove_comments s = s"
  by (simp add: remove_comments_def sub_id absent_hd del: lit_Cons)

lemma no_command_custom: "no_command s \<Longrightarrow> remove_custom_commands s = s"
  by (simp add: remove_custom_commands_def cmd_no_command cmd_no_command_end)

lemma no_command_sections: "no_command s \<Longrightarrow> convert_sections s = s"
  by (simp add: convert_sections_def labeled_heading_def plain_heading_def cmd_no_command)

lemma no_command_labels: "no_command s \<Longrightarrow> remove_labels s = s"
  by (simp add: remove_labels_def cmd_no_command)

lemma no_command_citations: "no_command s \<Longrightarrow> remove_citations s = s"
  by (simp add: remove_citations_def cmd_no_command tilde_cmd_no_command)

lemma no_command_early: "CHR ''%'' \<notin> set s \<Longrightarrow> no_command s \<Longrightarrow> early_stages s = s"
  by (simp add: early_stages_def no_command_structure no_command_comments no_command_custom
      no_command_sections no_command_labels no_command_citations)

lemma no_command_equations: "no_command s \<Longrightarrow> replace_equation_blocks s = s"
  by (simp add: replace_equation_blocks_def environment_def cmd_no_command)

lemma no_command_formatting: "no_command s \<Longrightarrow> remove_formatting s = s"
  by (simp add: remove_formatting_def unwrap_def cmd_no_command)

lemma no_command_figures: "no_command s \<Longrightarrow> remove_figures s = s"
  by (simp add: remove_figures_def environment_def cmd_no_command)

lemma no_command_tables: "no_command s \<Longrightarrow> remove_tables s = s"
  by (simp add: remove_tables_def environment_def cmd_no_command)

lemma no_command_other: "no_command s \<Longrightarrow> remove_other_commands s = s"
  by (simp add: remove_other_commands_def cmd_no_command cmd_no_command_end)

lemma no_command_tensor: "no_command s \<Longrightarrow> remove_tensor_notation s = s"
  by (simp add: remove_tensor_notation_def unwrap_def cmd_no_command)

lemma no_command_remaining: "no_command s \<Longrightarrow> remove_remaining_commands s = s"
  by (simp add: remove_remaining_commands_def remove_with_argument_def remove_bare_def
      one_or_more_def sub_no_command)

lemma no_command_clean_math: "no_command m \<Longrightarrow> clean_math_content m = strip m"
  by (simp add: clean_math_content_def one_or_more_def sub_no_command cmd_no_command
      cmd_no_command_end)

lemma is_space_nl [simp]: "is_space nl"
  by (simp add: is_space_def)

lemma is_space_not_bsl [simp]: "\<not> is_space bsl"
  by (simp add: is_space_def)

lemma tidy_ws_tl: "tidy_ws b (x # xs) \<Longrightarrow> tidy_ws (x = nl) xs"
  by simp

lemma tidy_collapse: "tidy_ws b s \<Longrightarrow> collapse_blank_lines s = s"
proof (induction s arbitrary: b)
  case Nil
  show ?case unfolding collapse_blank_lines_def by (rule sub_Nil) simp
next
  case (Cons x xs)
  let ?p = "[One (Lit nl), Star Space, One (Lit nl), Star Space, One (Lit nl)]"
  have "rm ?p (False, []) (x # xs) = None"
  proof (cases "x = nl")
    case True
    then obtain y ys where xs: "xs = y # ys" "y \<noteq> nl" "\<not> is_space y"
      using Cons.prems by (cases xs) (auto split: if_splits)
    then show ?thesis using True by (simp add: rm_One_Cons rm_Star_Cons)
  next
    case False
    then show ?thesis by (simp add: rm_One_Cons)
  qed
  then have "sub ?p (const_rep [nl, nl]) (x # xs) = x # sub ?p (const_rep [nl, nl]) xs"
    by (intro sub_miss) simp_all
  then show ?case using Cons.IH [OF tidy_ws_tl [OF Cons.prems]]
    by (simp add: collapse_blank_lines_def)
qed

lemma tidy_leading_re_sub:
  "tidy_ws b s \<Longrightarrow> re_sub (Bol # one_or_more Space) rep b s = s"
proof (induction s arbitrary: b)
  case Nil
  show ?case by (simp add: one_or_more_def)
next
  case (Cons x xs)
  have "rmatch (Bol # one_or_more Space) b (False, []) (x # xs) = None"
    using Cons.prems by (auto simp: one_or_more_def)
  then show ?case using Cons.IH [OF tidy_ws_tl [OF Cons.prems]] by simp
qed

lemma tidy_leading: "tidy_ws True s \<Longrightarrow> strip_leading s = s"
  by (simp add: strip_leading_def sub_def tidy_leading_re_sub)

lemma tidy_trailing_run:
  "is_space x \<Longrightarrow> tidy_ws b (x # xs) \<Longrightarrow> rm [Star Space, Eol] st xs = None"
proof (induction xs arbitrary: x b st)
  case Nil
  then show ?case by simp
next
  case (Cons y ys)
  have y: "y \<noteq> nl" using Cons.prems by simp
  show ?case
  proof (cases "is_space y")
    case True
    have "tidy_ws (x = nl) (y # ys)" using Cons.prems(2) by (rule tidy_ws_tl)
    then have "rm [Star Space, Eol] (take_char st y) ys = None"
      using Cons.IH [OF True] by blast
    then show ?thesis using True y by (simp add: rm_Star_Cons)
  next
    case False
    then show ?thesis using y by (simp add: rm_Star_Cons)
  qed
qed

lemma tidy_trailing: "tidy_ws b s \<Longrightarrow> strip_trailing s = s"
proof (induction s arbitrary: b)
  case Nil
  show ?case unfolding strip_trailing_def by (rule sub_Nil) (simp add: one_or_more_def)
next
  case (Cons x xs)
  let ?p = "one_or_more Space @ [Eol]"
  have "rm ?p (False, []) (x # xs) = None"
  proof (cases "is_space x")
    case True
    then show ?thesis using tidy_trailing_run [OF True Cons.prems]
      by (simp add: one_or_more_def rm_One_Cons)
  next
    case False
    then show ?thesis by (simp add: one_or_more_def rm_One_Cons)
  qed
  then have "sub ?p (const_rep []) (x # xs) = x # sub ?p (const_rep []) xs"
    by (intro sub_miss) simp_all
  then show ?case using Cons.IH [OF tidy_ws_tl [OF Cons.prems]]
    by (simp add: strip_trailing_def)
qed

lemma tidy_whitespace: "tidy_ws True s \<Longrightarrow> clean_whitespace s = s"
  by (simp add: clean_whitespace_def tidy_collapse tidy_leading tidy_trailing)

lemma tidy_last: "tidy_ws b s \<Longrightarrow> s \<noteq> [] \<Longrightarrow> \<not> is_space (last s)"
proof (induction s arbitrary: b)
  case Nil
  then show ?case by simp
next
  case (Cons x xs)
  show ?case
  proof (cases xs)
    case Nil
    then show ?thesis using Cons.prems by (simp split: if_splits)
  next
    case (Cons y ys)
    then show ?thesis using Cons.IH [OF tidy_ws_tl [OF Cons.prems(1)]] by simp
  qed
qed

lemma dropWhile_rev_last: "s \<noteq> [] \<Longrightarrow> \<not> P (last s) \<Longrightarrow> dropWhile P (rev s) = rev s"
  by (induction s rule: rev_induct) simp_all

lemma tidy_strip: "tidy_ws True s \<Longrightarrow> strip s = s"
proof (cases s)
  case Nil
  then show ?thesis by (simp add: strip_def)
next
  case (Cons x xs)
  assume a: "tidy_ws True s"
  then have 1: "dropWhile is_space s = s" using Cons by (simp split: if_splits)
  have "\<not> is_space (last s)" using tidy_last [OF a] Cons by simp
  then have "dropWhile is_space (rev s) = rev s"
    using Cons by (intro dropWhile_rev_last) simp_all
  then show ?thesis using 1 by (simp add: strip_def)
qed

lemma no_command_takeWhile: "no_command s \<Longrightarrow> no_command (takeWhile P s)"
  using no_command_append [of "takeWhile P s" "dropWhile P s"] by simp

lemma no_command_dropWhile: "no_command s \<Longrightarrow> no_command (dropWhile P s)"
  using no_command_append [of "takeWhile P s" "dropWhile P s"] by simp

lemma no_command_tl': "no_command s \<Longrightarrow> no_command (tl s)"
  by (cases s) simp_all

lemma rm_inline_math_None:
  assumes "CHR ''$'' \<notin> set xs"
  shows "rm (lit ''$'' @ [Open, Lazy (Non CHR ''$''), Close] @ lit ''$'') (False, []) (x # xs) = None"
proof -
  have "rm [Lazy (Non CHR ''$''), Close, One (Lit CHR ''$'')] st xs = None" for st
    using assms by (induction xs arbitrary: st) (auto simp add: rm_Lazy_Cons rm_One_Cons)
  then show ?thesis by (simp add: rm_One_Cons)
qed

lemma split_at_dollar:
  "CHR ''$'' \<in> set xs \<Longrightarrow>
   xs = takeWhile (\<lambda>c. c \<noteq> CHR ''$'') xs @ ''$'' @ tl (dropWhile (\<lambda>c. c \<noteq> CHR ''$'') xs)"
  by (induction xs) auto

lemma tidy_inline_math: "no_command s \<Longrightarrow> math_ok s \<Longrightarrow> handle_inline_math s = s"
proof (induction s rule: math_ok.induct)
  case 1
  show ?case unfolding handle_inline_math_def by (rule sub_Nil) simp
next
  case (2 x xs)
  let ?p = "lit ''$'' @ [Open, Lazy (Non CHR ''$''), Close] @ lit ''$''"
  let ?m = "takeWhile (\<lambda>c. c \<noteq> CHR ''$'') xs" and ?r = "tl (dropWhile (\<lambda>c. c \<noteq> CHR ''$'') xs)"
  have nc: "no_command xs" using 2(3) by simp
  show ?case
  proof (cases "x = CHR ''$'' \<and> CHR ''$'' \<in> set xs")
    case True
    have xs: "xs = ?m @ ''$'' @ ?r" using True by (intro split_at_dollar) simp
    have m: "CHR ''$'' \<notin> set ?m" by (auto dest: set_takeWhileD)
    have "rm ?p (False, []) (''$'' @ ?m @ ''$'' @ ?r) = Some (?m, ?r)"
      by (rule rm_inline_math [OF m])
    then have hit: "rm ?p (False, []) (x # xs) = Some (?m, ?r)"
      using True xs by simp
    have "length ?r < length (x # xs)"
      by (simp add: less_Suc_eq_le le_trans [OF diff_le_self length_dropWhile_le])
    then have "sub ?p inline_math_rep (x # xs) = inline_math_rep ?m @ sub ?p inline_math_rep ?r"
      using hit by (intro sub_hit) simp_all
    moreover have "clean_math_content ?m = ?m"
      using 2(4) True nc by (simp add: no_command_clean_math no_command_takeWhile)
    moreover have "handle_inline_math ?r = ?r"
      using 2(1) [OF True] 2(4) True nc by (simp add: no_command_dropWhile no_command_tl')
    ultimately have "handle_inline_math (x # xs) = ''$'' @ ?m @ ''$'' @ ?r"
      by (simp add: handle_inline_math_def inline_math_rep_def)
    then show ?thesis using xs True by simp
  next
    case False
    have "rm ?p (False, []) (x # xs) = None"
    proof (cases "x = CHR ''$''")
      case True
      then show ?thesis using False by (intro rm_inline_math_None) simp
    next
      case False
      then show ?thesis by (simp add: rm_One_Cons)
    qed
    then have "sub ?p inline_math_rep (x # xs) = x # sub ?p inline_math_rep xs"
      by (intro sub_miss) simp_all
    moreover have "handle_inline_math xs = xs"
      using 2(2) [OF False] 2(4) False nc by simp
    ultimately show ?thesis by (simp add: handle_inline_math_def)
  qed
qed

lemma tidy_fixed:
  "tidy u \<Longrightarrow> no_command u \<Longrightarrow> CHR ''%'' \<notin> set u \<Longrightarrow> process_latex_file u = u"
  by (simp add: tidy_def process_latex_file_def late_stages_def no_command_early
      no_command_equations tidy_inline_math no_command_formatting no_command_figures
      no_command_tables no_command_other no_command_tensor tidy_whitespace
      no_command_remaining tidy_strip)

lemma absent_no_command:
  "no_command body \<Longrightarrow> \<not> starts_alpha rest \<Longrightarrow> is_alpha c \<Longrightarrow> absent (bsl # c # h) body rest"
proof (induction body)
  case Nil
  then show ?case by simp
next
  case (Cons x xs)
  have "\<not> prefix (bsl # c # h) (x # xs @ rest)"
  proof (cases xs)
    case Nil
    then show ?thesis using Cons.prems by (cases rest) (auto simp: starts_alpha_def)
  next
    case (Cons y ys)
    then show ?thesis using Cons.prems by (auto simp: starts_alpha_def)
  qed
  then show ?case using Cons by simp
qed

lemma no_command_snoc: "no_command a \<Longrightarrow> \<not> starts_alpha b \<Longrightarrow> no_command b \<Longrightarrow> no_command (a @ b)"
  by (induction a) (auto simp: starts_alpha_def split: list.splits)

lemma absent_tilde:
  assumes "no_command body" "\<not> starts_alpha rest" "\<not> prefix (bsl # c # h) rest" "is_alpha c"
  shows "absent (a # bsl # c # h) body rest"
  using assms(1)
proof (induction body)
  case Nil
  then show ?case by simp
next
  case (Cons x xs)
  have "\<not> prefix (bsl # c # h) (xs @ rest)"
  proof (cases xs)
    case Nil
    then show ?thesis using assms(3) by simp
  next
    case (Cons y ys)
    show ?thesis
    proof (cases ys)
      case Nil
      then show ?thesis using Cons assms(2,4) by (cases rest) (auto simp: starts_alpha_def)
    next
      case (Cons z zs)
      then show ?thesis using \<open>xs = y # ys\<close> Cons.prems assms(4)
        by (auto simp: starts_alpha_def)
    qed
  qed
  then show ?case using Cons by simp
qed

lemma not_starts_alpha_bsl [simp]: "\<not> starts_alpha (bsl # r)" "\<not> starts_alpha []"
  by (simp_all add: starts_alpha_def is_alpha_def)

lemma not_starts_alpha_brace [simp]: "\<not> starts_alpha (CHR ''}'' # r)"
  by (simp add: starts_alpha_def is_alpha_def)

lemma tidy_late:
  "tidy_ws True u \<Longrightarrow> no_command u \<Longrightarrow> strip (late_stages u) = u"
  by (simp add: late_stages_def no_command_formatting no_command_figures no_command_tables
      no_command_other no_command_tensor tidy_whitespace no_command_remaining tidy_strip)



lemma sub_skip_cmd:
  assumes "Bol \<notin> set q" and "\<forall>y. cls_ok cl y \<longrightarrow> is_alpha y"
    and "no_command body" and "\<not> starts_alpha rest"
  shows "sub (One (Lit bsl) # One cl # q) rep (body @ rest)
       = body @ sub (One (Lit bsl) # One cl # q) rep rest"
  using assms(3)
proof (induction body)
  case Nil
  then show ?case by simp
next
  case (Cons x xs)
  have "x = bsl \<longrightarrow> \<not> starts_alpha (xs @ rest)"
    using Cons.prems assms(4) by (cases xs) (auto simp: starts_alpha_def split: if_splits)
  then have "rm (One (Lit bsl) # One cl # q) (False, []) (x # xs @ rest) = None"
    by (intro rm_cmd_None assms) 
  then have "sub (One (Lit bsl) # One cl # q) rep (x # xs @ rest)
      = x # sub (One (Lit bsl) # One cl # q) rep (xs @ rest)"
    using assms(1) by (intro sub_miss) simp_all
  then show ?case using Cons by simp
qed

lemma clean_math_no_command: "no_command (clean_math_content m)"
proof -
  let ?a = "sub (One (Lit bsl) # one_or_more Alpha @ lit ''{'' @ [Open, Star (Non CHR ''}''), Close] @ lit ''}'')
              (prefix_rep []) m"
  have b: "no_command (remove_bare ?a)" using remove_bare_clean by blast
  have "clean_math_content m = strip (remove_bare ?a)"
    using b unfolding clean_math_content_def Let_def
    by (simp add: remove_bare_def [symmetric] cmd_no_command cmd_no_command_end)
  then show ?thesis using b by (simp add: no_command_strip)
qed

section \<open>Characters of the output\<close>

lemma take_char_set: "set (snd (take_char st x)) \<subseteq> set (snd st) \<union> {x}"
  by (cases st) auto

lemma rmatch_set:
  "rmatch p b st s = Some (cap, b', r) \<Longrightarrow> set cap \<subseteq> set (snd st) \<union> set s \<and> set r \<subseteq> set s"
proof (induction p b st s arbitrary: cap b' r rule: rmatch.induct)
  case (1 bol st s)
  then show ?case by auto
next
  case (2 c p bol st)
  then show ?case by simp
next
  case (3 c p bol st x xs)
  then have m: "rmatch p (x = nl) (take_char st x) xs = Some (cap, b', r)" and ok: "cls_ok c x"
    by (auto split: if_splits)
  from 3(1) [OF ok m] take_char_set [of st x] show ?case by auto
next
  case (4 c p bol st)
  then show ?case by simp
next
  case (5 c p bol st x xs)
  show ?case
  proof (cases "cls_ok c x")
    case True
    show ?thesis
    proof (cases "rmatch (Star c # p) (x = nl) (take_char st x) xs")
      case None
      then have "rmatch p bol st (x # xs) = Some (cap, b', r)" using 5(4) True by simp
      from 5(2) [OF True None this] show ?thesis .
    next
      case (Some t)
      then have "rmatch (Star c # p) (x = nl) (take_char st x) xs = Some (cap, b', r)"
        using 5(4) True by simp
      from 5(1) [OF True this] take_char_set [of st x] show ?thesis by auto
    qed
  next
    case False
    then have "rmatch p bol st (x # xs) = Some (cap, b', r)" using 5(4) by simp
    from 5(3) [OF False this] show ?thesis .
  qed
next
  case (6 c p bol st)
  then show ?case by simp
next
  case (7 c p bol st x xs)
  show ?case
  proof (cases "rmatch p bol st (x # xs)")
    case None
    then have ok: "cls_ok c x" and m: "rmatch (Lazy c # p) (x = nl) (take_char st x) xs = Some (cap, b', r)"
      using 7(3) by (auto split: if_splits)
    from 7(2) [OF None ok m] take_char_set [of st x] show ?thesis by auto
  next
    case (Some t)
    then have "rmatch p bol st (x # xs) = Some (cap, b', r)" using 7(3) by simp
    from 7(1) [OF this] show ?thesis .
  qed
next
  case (8 p bol st s)
  then show ?case by (auto split: if_splits)
next
  case (9 p bol st)
  then show ?case by simp
next
  case (10 p bol st x xs)
  then show ?case by (simp split: if_splits)
next
  case (11 p bol st s)
  then have "rmatch p bol (True, []) s = Some (cap, b', r)" by simp
  from 11(1) [OF this] show ?case by auto
next
  case (12 p bol st s)
  then have "rmatch p bol (False, snd st) s = Some (cap, b', r)" by simp
  from 12(1) [OF this] show ?case by auto
qed

lemma re_sub_set:
  assumes "\<And>cap. set (rep cap) \<subseteq> A \<union> set cap"
  shows "set (re_sub p rep b s) \<subseteq> A \<union> set s"
proof (induction s arbitrary: b rule: length_induct)
  case (1 s)
  have ih: "set (re_sub p rep b' r) \<subseteq> A \<union> set r" if "length r < length s" for b' r
    using 1 that by blast
  show ?case
  proof (cases "rmatch p b (False, []) s")
    case None
    then show ?thesis
    proof (cases s)
      case Nil
      then show ?thesis using None by simp
    next
      case (Cons x xs)
      then show ?thesis using None ih [of xs "x = nl"] by auto
    qed
  next
    case (Some t)
    obtain cap b' r where t: "t = (cap, b', r)" by (cases t) auto
    have m: "set cap \<subseteq> set s" "set r \<subseteq> set s"
      using rmatch_set [of p b "(False, [])" s cap b' r] Some t by auto
    have rc: "set (rep cap) \<subseteq> A \<union> set s" using assms [of cap] m(1) by auto
    show ?thesis
    proof (cases s)
      case Nil
      then show ?thesis using Some t rc by simp
    next
      case (Cons x xs)
      show ?thesis
      proof (cases "length r < length s")
        case True
        then show ?thesis using Some t rc m(2) ih [OF True, of b'] Cons by auto
      next
        case False
        then show ?thesis using Some t rc ih [of xs "x = nl"] Cons by auto
      qed
    qed
  qed
qed

lemma sub_const_set: "set (sub p (const_rep t) s) \<subseteq> set t \<union> set s"
  unfolding sub_def by (rule re_sub_set) (simp add: const_rep_def)

lemma sub_prefix_set: "set (sub p (prefix_rep t) s) \<subseteq> set t \<union> set s"
  unfolding sub_def by (rule re_sub_set) (simp add: prefix_rep_def)

lemma sub_const_keeps: "c \<notin> set s \<Longrightarrow> c \<notin> set t \<Longrightarrow> c \<notin> set (sub p (const_rep t) s)"
  using sub_const_set [of p t s] by auto

lemma sub_prefix_keeps: "c \<notin> set s \<Longrightarrow> c \<notin> set t \<Longrightarrow> c \<notin> set (sub p (prefix_rep t) s)"
  using sub_prefix_set [of p t s] by auto

lemma strip_set: "set (strip s) \<subseteq> set s"
  unfolding strip_def by (auto dest!: set_dropWhileD)

lemma strip_keeps: "c \<notin> set s \<Longrightarrow> c \<notin> set (strip s)"
  using strip_set [of s] by auto

lemma clean_math_keeps: "c \<notin> set m \<Longrightarrow> c \<notin> set (clean_math_content m)"
  unfolding clean_math_content_def Let_def
  by (intro strip_keeps sub_const_keeps sub_prefix_keeps) simp_all

lemma sub_math_keeps:
  assumes "c \<notin> set s" and "c \<noteq> CHR ''$''"
  shows "c \<notin> set (handle_inline_math s)"
proof -
  have "set (re_sub p inline_math_rep b s) \<subseteq> {CHR ''$''} \<union> set s" for p b
  proof (rule re_sub_set)
    fix cap
    have "set (clean_math_content cap) \<subseteq> set cap"
      using clean_math_keeps [of _ cap] by auto
    then show "set (inline_math_rep cap) \<subseteq> {CHR ''$''} \<union> set cap"
      by (auto simp: inline_math_rep_def)
  qed
  then show ?thesis using assms unfolding handle_inline_math_def sub_def by blast
qed

lemma remove_comments_Cons:
  "remove_comments (x # xs) =
     (if x = CHR ''%'' then remove_comments (dropWhile (\<lambda>c. c \<noteq> nl) xs) else x # remove_comments xs)"
proof (cases "x = CHR ''%''")
  case True
  have "length (dropWhile (\<lambda>c. c \<noteq> nl) xs) < length (x # xs)"
    by (simp add: length_dropWhile_le less_Suc_eq_le)
  then have "sub (lit ''%'' @ [Star Dot, Eol]) (const_rep []) (x # xs)
      = const_rep [] [] @ sub (lit ''%'' @ [Star Dot, Eol]) (const_rep []) (dropWhile (\<lambda>c. c \<noteq> nl) xs)"
    using True by (intro sub_hit) (simp_all add: rm_comment del: lit_Cons)
  then show ?thesis using True by (simp add: remove_comments_def const_rep_def)
next
  case False
  then have "sub (lit ''%'' @ [Star Dot, Eol]) (const_rep []) (x # xs)
      = x # sub (lit ''%'' @ [Star Dot, Eol]) (const_rep []) xs"
    by (intro sub_miss) (simp_all add: rm_comment del: lit_Cons)
  then show ?thesis using False by (simp add: remove_comments_def)
qed

lemma remove_comments_no_percent: "CHR ''%'' \<notin> set (remove_comments s)"
proof (induction s rule: length_induct)
  case (1 s)
  show ?case
  proof (cases s)
    case Nil
    then show ?thesis by (simp add: remove_comments_def sub_Nil)
  next
    case (Cons x xs)
    have "length (dropWhile (\<lambda>c. c \<noteq> nl) xs) < length s"
      using Cons by (simp add: length_dropWhile_le less_Suc_eq_le)
    then have "CHR ''%'' \<notin> set (remove_comments (dropWhile (\<lambda>c. c \<noteq> nl) xs))"
      and "CHR ''%'' \<notin> set (remove_comments xs)"
      using 1 Cons by auto
    then show ?thesis using Cons by (simp add: remove_comments_Cons)
  qed
qed

lemma percent_after_comments:
  "CHR ''%'' \<notin> set s \<Longrightarrow> CHR ''%'' \<notin> set (remove_citations (remove_labels (convert_sections (remove_custom_commands s))))"
  unfolding remove_citations_def remove_labels_def convert_sections_def remove_custom_commands_def Let_def
  by (intro sub_const_keeps sub_prefix_keeps) simp_all

lemma percent_equations:
  "CHR ''%'' \<notin> set s \<Longrightarrow> CHR ''%'' \<notin> set (replace_equation_blocks s)"
  unfolding replace_equation_blocks_def Let_def
  by (intro sub_const_keeps sub_prefix_keeps) simp_all

lemma percent_late:
  "CHR ''%'' \<notin> set s \<Longrightarrow> CHR ''%'' \<notin> set (late_stages s)"
  unfolding late_stages_def remove_remaining_commands_def remove_bare_def remove_with_argument_def
    clean_whitespace_def strip_trailing_def strip_leading_def collapse_blank_lines_def
    remove_tensor_notation_def remove_other_commands_def remove_tables_def remove_figures_def
    remove_formatting_def Let_def
  by (intro sub_const_keeps sub_prefix_keeps) simp_all

lemma process_no_percent: "CHR ''%'' \<notin> set (process_latex_file t)"
proof -
  have "CHR ''%'' \<notin> set (remove_comments (remove_document_structure t))"
    by (rule remove_comments_no_percent)
  then have "CHR ''%'' \<notin> set (early_stages t)"
    unfolding early_stages_def by (rule percent_after_comments)
  then show ?thesis unfolding process_latex_file_def
    by (intro strip_keeps percent_late sub_math_keeps percent_equations) simp_all
qed

section \<open>A second pass\<close>

lemma scenario_with_math:
  "process_latex_file (bsl # ''section{Intro}'' @ bsl # ''label{sec:intro}\<newline>Hello $ x $ '' @
                       bsl # ''textbf{world}.'') = ''# Intro\<newline>Hello $x$ world.''"
  by code_simp

text \<open>
  Claim C9, as stated: when the output holds no command token, a second pass changes
  nothing. In \<^verbatim>\<open>a \foo\<close>, line feed, \<^verbatim>\<open>b\<close> the whitespace stage sees no line end behind the
  space; the catch-all then deletes \<^verbatim>\<open>\foo\<close> and the space is left at the end of its line.
  The output holds no command token, and the second pass deletes the space.
\<close>

theorem trailing_space_second_pass:
  "no_command (process_latex_file (''a '' @ bsl # ''foo\<newline>b'')) \<and>
   process_latex_file (process_latex_file (''a '' @ bsl # ''foo\<newline>b''))
     \<noteq> process_latex_file (''a '' @ bsl # ''foo\<newline>b'')"
  by code_simp

text \<open>
  Claim C9, amended: when the output of the conversion is tidy (no line of it starts or
  ends with whitespace, none is blank, and no inline math span of it has whitespace at the
  start or end of its interior), converting it again returns it unchanged.
\<close>

theorem second_pass_on_tidy_output:
  assumes "tidy (process_latex_file t)"
  shows "process_latex_file (process_latex_file t) = process_latex_file t"
proof -
  have "no_command (process_latex_file t)"
    unfolding process_latex_file_def late_stages_def remove_remaining_commands_def
    by (intro no_command_strip conjunct1 [OF remove_bare_clean])
  then show ?thesis using assms process_no_percent by (intro tidy_fixed)
qed

text \<open>The amended claim C9 at a text with a heading, inline math and a bold command.\<close>

theorem second_pass_on_tidy_output_witness:
  "tidy (process_latex_file (bsl # ''section{Intro}'' @ bsl # ''label{sec:intro}\<newline>Hello $ x $ '' @
                             bsl # ''textbf{world}.'')) \<and>
   process_latex_file (process_latex_file (bsl # ''section{Intro}'' @ bsl # ''label{sec:intro}\<newline>Hello $ x $ '' @
                             bsl # ''textbf{world}.''))
     = ''# Intro\<newline>Hello $x$ world.''"
proof -
  have h: "tidy (process_latex_file (bsl # ''section{Intro}'' @ bsl # ''label{sec:intro}\<newline>Hello $ x $ '' @
                             bsl # ''textbf{world}.''))"
    unfolding scenario_with_math by code_simp
  show ?thesis using second_pass_on_tidy_output [OF h] h
    by (simp only: scenario_with_math simp_thms)
qed

section \<open>Block math\<close>









section \<open>Headings\<close>




















section \<open>Inline math\<close>

lemma scenario_inline_math:
  "process_latex_file (''The value $'' @ bsl # ''mathbf{v}$ is large'' @ bsl # ''cite{foo}.'')
     = ''The value $v$ is large.''"
  by code_simp

lemma inline_math_stage:
  assumes "CHR ''$'' \<notin> set pre" and "CHR ''$'' \<notin> set m"
  shows "handle_inline_math (pre @ ''$'' @ m @ ''$'' @ post)
           = pre @ ''$'' @ clean_math_content m @ ''$'' @ handle_inline_math post"
proof -
  let ?p = "[Open, Lazy (Non CHR ''$''), Close] @ lit ''$''"
  have "absent ''$'' pre (''$'' @ m @ ''$'' @ post)" using assms(1) by (simp add: absent_hd)
  then have "sub (lit ''$'' @ ?p) inline_math_rep (pre @ ''$'' @ m @ ''$'' @ post)
      = pre @ sub (lit ''$'' @ ?p) inline_math_rep (''$'' @ m @ ''$'' @ post)"
    by (intro sub_skip) simp_all
  moreover have "sub (lit ''$'' @ ?p) inline_math_rep (''$'' @ m @ ''$'' @ post)
      = inline_math_rep m @ sub (lit ''$'' @ ?p) inline_math_rep post"
    by (rule sub_hit [OF _ rm_inline_math [OF assms(2)]]) simp_all
  ultimately show ?thesis
    by (simp add: handle_inline_math_def inline_math_rep_def)
qed

lemma not_starts_alpha_dollar [simp]: "\<not> starts_alpha (CHR ''$'' # r)"
  by (simp add: starts_alpha_def is_alpha_def)

lemma math_span_no_command:
  assumes "no_command pre" "no_command post"
  shows "no_command (pre @ ''$'' @ clean_math_content m @ ''$'' @ post)"
proof -
  have "no_command (clean_math_content m @ ''$'' @ post)"
    using clean_math_no_command assms(2)
    by (intro no_command_snoc [where b = "''$'' @ post"]) simp_all
  then show ?thesis using assms(1)
    by (intro no_command_snoc [where a = pre]) simp_all
qed

lemma math_span_untouched:
  assumes "untouched_math m post" "no_command pre" "no_command post"
    "CHR ''%'' \<notin> set pre" "CHR ''%'' \<notin> set post"
  shows "replace_equation_blocks (early_stages (pre @ ''$'' @ m @ ''$'' @ post)) = pre @ ''$'' @ m @ ''$'' @ post"
proof -
  let ?t = "pre @ ''$'' @ m @ ''$'' @ post"
  have pre: "list_all (\<lambda>h. absent h pre (''$'' @ m @ ''$'' @ post))
      (early_heads @ [bsl # ''begin{equation}'', bsl # ''begin{align}'', bsl # ''begin{split}''])"
    using assms(2) by (simp add: early_heads_def absent_no_command absent_tilde)
  have post: "list_all (\<lambda>h. absent h post [])
      (early_heads @ [bsl # ''begin{equation}'', bsl # ''begin{align}'', bsl # ''begin{split}''])"
    using assms(3) by (simp add: early_heads_def absent_no_command absent_tilde)
  have mid: "list_all (\<lambda>h. absent h (''$'' @ m @ ''$'') post)
      (early_heads @ [bsl # ''begin{equation}'', bsl # ''begin{align}'', bsl # ''begin{split}''])"
    using assms(1) by (simp add: untouched_math_def early_heads_def absent_append)
  have all: "list_all (\<lambda>h. absent h ?t [])
      (early_heads @ [bsl # ''begin{equation}'', bsl # ''begin{align}'', bsl # ''begin{split}''])"
    using pre post mid by (simp add: absent_append list_all_iff)
  have "CHR ''%'' \<notin> set ?t" using assms by (simp add: untouched_math_def)
  then have e: "early_stages ?t = ?t"
    using all by (intro early_stages_id) simp_all
  have "replace_equation_blocks ?t = ?t"
    using all by (simp add: replace_equation_blocks_def environment_miss)
  then show ?thesis using e by simp
qed

text \<open>
  Claim C3, as stated: the span \<^verbatim>\<open>$a\cite{b}$\<close> should come out as \<^verbatim>\<open>$\<close>, the cleaned interior
  and \<^verbatim>\<open>$\<close>. Cleaning \<^verbatim>\<open>a\cite{b}\<close> replaces the command by its argument and gives \<^verbatim>\<open>ab\<close>, but
  the conversion deletes the citation before it reaches the inline math and returns \<^verbatim>\<open>$a$\<close>.
\<close>

theorem inline_math_interior_not_cleaned_input:
  "process_latex_file (''$a'' @ bsl # ''cite{b}$'')
     \<noteq> ''$'' @ clean_math_content (''a'' @ bsl # ''cite{b}'') @ ''$''"
  by code_simp

text \<open>
  Claim C3, amended. In the text that reaches the inline-math stage, a span that starts at
  the first \<^verbatim>\<open>$\<close> and whose interior \<open>m\<close> holds no \<^verbatim>\<open>$\<close> is replaced by \<^verbatim>\<open>$\<close>,
  \<open>clean_math_content m\<close> and \<^verbatim>\<open>$\<close>; the text before it is kept and the stage goes on behind
  the span. \<open>clean_math_content\<close> is the five substitutions of the source followed by
  \<^verbatim>\<open>strip()\<close>. For the whole conversion: when the interior holds nothing that an earlier
  stage rewrites, the text around the span holds no command token, no \<^verbatim>\<open>%\<close> and no further
  inline math to clean, and the text with the cleaned span is free of whitespace at line
  starts and ends, the output is the text around with \<^verbatim>\<open>$\<close>, the cleaned interior and \<^verbatim>\<open>$\<close> in
  place of the span. The text \<^verbatim>\<open>The value $\mathbf{v}$ is large\cite{foo}.\<close> is converted to
  \<^verbatim>\<open>The value $v$ is large.\<close>
\<close>

theorem inline_math_span:
  "(CHR ''$'' \<notin> set pre \<and> CHR ''$'' \<notin> set m \<longrightarrow>
      handle_inline_math (pre @ ''$'' @ m @ ''$'' @ post)
        = pre @ ''$'' @ clean_math_content m @ ''$'' @ handle_inline_math post)
   \<and> (untouched_math m post \<and> no_command pre \<and> no_command post \<and> CHR ''%'' \<notin> set pre \<and>
      CHR ''%'' \<notin> set post \<and> CHR ''$'' \<notin> set pre \<and> math_ok post \<and>
      tidy_ws True (pre @ ''$'' @ clean_math_content m @ ''$'' @ post) \<longrightarrow>
      process_latex_file (pre @ ''$'' @ m @ ''$'' @ post)
        = pre @ ''$'' @ clean_math_content m @ ''$'' @ post)
   \<and> process_latex_file (''The value $'' @ bsl # ''mathbf{v}$ is large'' @ bsl # ''cite{foo}.'')
        = ''The value $v$ is large.''"
proof (intro conjI impI)
  assume "CHR ''$'' \<notin> set pre \<and> CHR ''$'' \<notin> set m"
  then show "handle_inline_math (pre @ ''$'' @ m @ ''$'' @ post)
        = pre @ ''$'' @ clean_math_content m @ ''$'' @ handle_inline_math post"
    by (intro inline_math_stage) simp_all
next
  assume h: "untouched_math m post \<and> no_command pre \<and> no_command post \<and> CHR ''%'' \<notin> set pre \<and>
      CHR ''%'' \<notin> set post \<and> CHR ''$'' \<notin> set pre \<and> math_ok post \<and>
      tidy_ws True (pre @ ''$'' @ clean_math_content m @ ''$'' @ post)"
  then have m: "CHR ''$'' \<notin> set m" by (simp add: untouched_math_def)
  have 1: "replace_equation_blocks (early_stages (pre @ ''$'' @ m @ ''$'' @ post)) = pre @ ''$'' @ m @ ''$'' @ post"
    using h by (intro math_span_untouched) simp_all
  have 2: "handle_inline_math (pre @ ''$'' @ m @ ''$'' @ post)
      = pre @ ''$'' @ clean_math_content m @ ''$'' @ post"
    using h m tidy_inline_math [of post] inline_math_stage [of pre m post] by simp
  have 3: "strip (late_stages (pre @ ''$'' @ clean_math_content m @ ''$'' @ post))
      = pre @ ''$'' @ clean_math_content m @ ''$'' @ post"
    using h by (intro tidy_late math_span_no_command) simp_all
  show "process_latex_file (pre @ ''$'' @ m @ ''$'' @ post)
        = pre @ ''$'' @ clean_math_content m @ ''$'' @ post"
    unfolding process_latex_file_def 1 2 3 ..
next
  show "process_latex_file (''The value $'' @ bsl # ''mathbf{v}$ is large'' @ bsl # ''cite{foo}.'')
        = ''The value $v$ is large.''"
    by (rule scenario_inline_math)
qed

lemma clean_bold_v: "clean_math_content (bsl # ''mathbf{v}'') = ''v''"
  by code_simp

text \<open>The amended claim C3 at the span of the scenario, without the citation.\<close>

theorem inline_math_span_witness:
  "handle_inline_math (''The value '' @ ''$'' @ (bsl # ''mathbf{v}'') @ ''$'' @ '' is large.'')
     = ''The value '' @ ''$'' @ ''v'' @ ''$'' @ handle_inline_math '' is large.''
   \<and> process_latex_file (''The value '' @ ''$'' @ (bsl # ''mathbf{v}'') @ ''$'' @ '' is large.'')
     = ''The value '' @ ''$'' @ ''v'' @ ''$'' @ '' is large.''"
proof -
  have 1: "untouched_math (bsl # ''mathbf{v}'') '' is large.''"
    by (simp add: untouched_math_def early_heads_def)
  have 2: "no_command ''The value ''" "no_command '' is large.''" "math_ok '' is large.''"
    "tidy_ws True (''The value '' @ ''$'' @ ''v'' @ ''$'' @ '' is large.'')"
    by code_simp+
  have 3: "CHR ''$'' \<notin> set ''The value ''" "CHR ''%'' \<notin> set ''The value ''"
    "CHR ''%'' \<notin> set '' is large.''" "CHR ''$'' \<notin> set (bsl # ''mathbf{v}'')"
    by simp_all
  show ?thesis
    using inline_math_span [of "''The value ''" "bsl # ''mathbf{v}''" "'' is large.''"] 1 2 3
    unfolding clean_bold_v by blast
qed

section \<open>The catch-all\<close>

lemma rm_with_argument:
  assumes "name \<noteq> []" and "\<forall>c\<in>set name. is_alpha c"
    and "CHR ''}'' \<notin> set arg" and "nl \<notin> set arg"
  shows "rm (One (Lit bsl) # one_or_more Alpha @ lit ''{'' @ [Lazy Dot] @ lit ''}'') (False, [])
            (bsl # name @ ''{'' @ arg @ ''}'' @ post) = Some ([], post)"
proof -
  obtain n ns where name: "name = n # ns" using assms(1) by (cases name) auto
  have a: "absent ''}'' arg (''}'' @ post)" using assms(3) by (simp add: absent_hd)
  have b: "\<forall>x\<in>set arg. cls_ok Dot x" using assms(4) by auto
  have "rm (Lazy Dot # lit ''}'' @ []) (False, []) (arg @ ''}'' @ post)
      = rm (Lazy Dot # lit ''}'' @ []) (False, []) (''}'' @ post)"
    by (rule rm_Lazy_skip [OF _ b a]) simp
  also have "\<dots> = Some ([], post)"
    by (rule rm_Lazy_hit) simp_all
  finally have lazy: "rm [Lazy Dot, One (Lit CHR ''}'')] (False, []) (arg @ ''}'' @ post) = Some ([], post)"
    by simp
  have "\<not> is_alpha CHR ''{''" by (simp add: is_alpha_def)
  then have star0: "rm (Star Alpha # lit ''{'' @ [Lazy Dot] @ lit ''}'') (False, []) (''{'' @ arg @ ''}'' @ post)
      = Some ([], post)"
    using lazy by (simp add: rm_Star_Cons rm_One_Cons)
  have "rm (Star Alpha # lit ''{'' @ [Lazy Dot] @ lit ''}'') (False, []) (ns @ ''{'' @ arg @ ''}'' @ post)
      = Some ([], post)"
    by (rule rm_Star_run [OF _ _ star0]) (use assms(2) name in simp_all)
  then show ?thesis using assms(2) name by (simp add: rm_One_Cons one_or_more_def)
qed

lemma scenario_unknown_command:
  "process_latex_file (''x '' @ bsl # ''unknownCmd{arg} y'') = ''x  y''"
  by code_simp

lemma dedicated_heads_shape:
  "list_all (\<lambda>h. (case h of x # c # h' \<Rightarrow> x = bsl \<and> is_alpha c | _ \<Rightarrow> False) \<or>
                 h = CHR ''~'' # bsl # ''cite{'') dedicated_heads"
  by (simp add: dedicated_heads_def early_heads_def late_heads_def is_alpha_def)

lemma dedicated_head_shape:
  assumes "h \<in> set dedicated_heads"
  shows "(\<exists>c h'. h = bsl # c # h' \<and> is_alpha c) \<or> h = CHR ''~'' # bsl # ''cite{''"
proof -
  have "(case h of x # c # h' \<Rightarrow> x = bsl \<and> is_alpha c | _ \<Rightarrow> False) \<or> h = CHR ''~'' # bsl # ''cite{''"
    using dedicated_heads_shape assms unfolding list_all_iff by blast
  then show ?thesis by (auto split: list.splits)
qed

lemma cite_dedicated: "bsl # ''cite{'' \<in> set dedicated_heads"
  by (simp add: dedicated_heads_def early_heads_def)

lemma command_text_absent:
  assumes "unknown_command name arg post" "no_command pre" "no_command post"
  shows "list_all (\<lambda>h. absent h (pre @ command name arg @ post) []) dedicated_heads"
  unfolding list_all_iff
proof
  fix h assume h: "h \<in> set dedicated_heads"
  have mid: "absent h (command name arg) post"
    using assms(1) h by (simp add: unknown_command_def list_all_iff)
  have "absent (bsl # ''cite{'') (command name arg) post"
    using assms(1) cite_dedicated by (simp add: unknown_command_def list_all_iff)
  then have cite: "\<not> prefix (bsl # ''cite{'') (command name arg @ post)"
    by (simp add: command_def)
  have "absent h pre (command name arg @ post) \<and> absent h post []"
    using dedicated_head_shape [OF h]
  proof
    assume "\<exists>c h'. h = bsl # c # h' \<and> is_alpha c"
    then obtain c h' where "h = bsl # c # h'" "is_alpha c" by blast
    then show ?thesis using assms(2,3)
      by (simp add: absent_no_command command_def)
  next
    assume "h = CHR ''~'' # bsl # ''cite{''"
    then show ?thesis using assms(2,3) cite
      by (simp add: absent_tilde command_def)
  qed
  then show "absent h (pre @ command name arg @ post) []"
    using mid by (simp add: absent_append)
qed

lemma heads_split:
  assumes "list_all (\<lambda>h. absent h s []) dedicated_heads"
  shows "list_all (\<lambda>h. absent h s []) early_heads"
    "absent (bsl # ''begin{equation}'') s []" "absent (bsl # ''begin{align}'') s []"
    "absent (bsl # ''begin{split}'') s []"
    "list_all (\<lambda>h. absent h s []) late_heads"
  using assms by (simp_all add: dedicated_heads_def)

lemma catch_all_stage:
  assumes "no_command pre" and "name \<noteq> []" and "\<forall>c\<in>set name. is_alpha c"
    and "CHR ''}'' \<notin> set arg" and "nl \<notin> set arg"
  shows "remove_with_argument (pre @ command name arg @ post) = pre @ remove_with_argument post"
proof -
  let ?q = "Star Alpha # lit ''{'' @ [Lazy Dot] @ lit ''}''"
  have p: "One (Lit bsl) # one_or_more Alpha @ lit ''{'' @ [Lazy Dot] @ lit ''}''
      = One (Lit bsl) # One Alpha # ?q"
    by (simp add: one_or_more_def)
  have "sub (One (Lit bsl) # One Alpha # ?q) (const_rep []) (pre @ command name arg @ post)
      = pre @ sub (One (Lit bsl) # One Alpha # ?q) (const_rep []) (command name arg @ post)"
    using assms(1) by (intro sub_skip_cmd) (simp_all add: command_def)
  moreover have "sub (One (Lit bsl) # one_or_more Alpha @ lit ''{'' @ [Lazy Dot] @ lit ''}'') (const_rep [])
        (bsl # name @ ''{'' @ arg @ ''}'' @ post)
      = const_rep [] [] @ sub (One (Lit bsl) # one_or_more Alpha @ lit ''{'' @ [Lazy Dot] @ lit ''}'')
        (const_rep []) post"
    by (rule sub_hit [OF _ rm_with_argument [OF assms(2-5)]]) simp_all
  ultimately show ?thesis
    unfolding remove_with_argument_def p by (simp add: const_rep_def command_def)
qed

text \<open>
  Claim C5, as stated: an unknown command is removed with its entire argument. The pattern
  ends at the first closing brace: of \<^verbatim>\<open>\foo{a{b}c}\<close> the conversion leaves \<^verbatim>\<open>c}\<close>.
\<close>

theorem nested_argument_leaves_residue:
  "process_latex_file (bsl # ''foo{a{b}c}'') = ''c}''"
  by code_simp

text \<open>
  Claim C5, amended. The conversion is a total function, so it returns a text for every
  input. When the text before a command holds no command token, the name of the command is
  a nonempty run of letters and its argument holds no closing brace and no line feed, the
  first catch-all substitution removes the backslash, the name, the braces and the argument,
  keeps the text before it and goes on behind it. For the whole conversion: when moreover no
  stage before the catch-all touches the command, the text around it holds no command token,
  no \<^verbatim>\<open>%\<close> and no \<^verbatim>\<open>$\<close>, and the whitespace stage finds nothing to do, the output is the text
  around the command, with whitespace removed at its two ends. The text
  \<^verbatim>\<open>x \unknownCmd{arg} y\<close> is converted to \<^verbatim>\<open>x  y\<close>.
\<close>

theorem catch_all_removes_command:
  "(no_command pre \<and> name \<noteq> [] \<and> list_all is_alpha name \<and> CHR ''}'' \<notin> set arg \<and> nl \<notin> set arg \<longrightarrow>
      remove_with_argument (pre @ command name arg @ post) = pre @ remove_with_argument post)
   \<and> (unknown_command name arg post \<and> no_command (pre @ post) \<and>
      CHR ''%'' \<notin> set (pre @ post) \<and> CHR ''$'' \<notin> set (pre @ post) \<and>
      tidy_ws True (pre @ command name arg @ post) \<longrightarrow>
      process_latex_file (pre @ command name arg @ post) = strip (pre @ post))
   \<and> process_latex_file (''x '' @ bsl # ''unknownCmd{arg} y'') = ''x  y''"
proof (intro conjI impI)
  assume "no_command pre \<and> name \<noteq> [] \<and> list_all is_alpha name \<and> CHR ''}'' \<notin> set arg \<and> nl \<notin> set arg"
  then show "remove_with_argument (pre @ command name arg @ post) = pre @ remove_with_argument post"
    by (intro catch_all_stage) (simp_all add: list_all_iff)
next
  let ?t = "pre @ command name arg @ post"
  assume h: "unknown_command name arg post \<and> no_command (pre @ post) \<and>
      CHR ''%'' \<notin> set (pre @ post) \<and> CHR ''$'' \<notin> set (pre @ post) \<and>
      tidy_ws True (pre @ command name arg @ post)"
  then have u: "unknown_command name arg post" and nc: "no_command pre" "no_command post"
    using no_command_append [of pre post] by simp_all
  note heads = heads_split [OF command_text_absent [OF u nc]]
  have name: "CHR ''%'' \<notin> set name" "CHR ''$'' \<notin> set name"
    using u by (auto simp: unknown_command_def list_all_iff is_alpha_def)
  have "CHR ''%'' \<notin> set ?t" using h u name by (simp add: unknown_command_def command_def)
  then have 1: "early_stages ?t = ?t" using heads(1) by (intro early_stages_id)
  have 2: "replace_equation_blocks ?t = ?t"
    using heads(2-4) by (simp add: replace_equation_blocks_def environment_miss)
  have "CHR ''$'' \<notin> set ?t" using h u name by (simp add: unknown_command_def command_def)
  then have 3: "handle_inline_math ?t = ?t" by (rule no_dollar_math)
  have 4: "remove_tensor_notation (remove_other_commands (remove_tables (remove_figures
           (remove_formatting ?t)))) = ?t"
    using heads(5) by (rule late_commands_id)
  have 5: "clean_whitespace ?t = ?t" using h by (intro tidy_whitespace) simp
  have "remove_with_argument ?t = pre @ remove_with_argument post"
    using u nc(1) by (intro catch_all_stage) (simp_all add: unknown_command_def list_all_iff)
  moreover have "remove_with_argument post = post"
    using nc(2) by (simp add: remove_with_argument_def one_or_more_def sub_no_command)
  moreover have "remove_bare (pre @ post) = pre @ post"
    using h by (simp add: remove_bare_def one_or_more_def sub_no_command)
  ultimately have 6: "remove_remaining_commands ?t = pre @ post"
    by (simp add: remove_remaining_commands_def)
  show "process_latex_file ?t = strip (pre @ post)"
    unfolding process_latex_file_def late_stages_def 1 2 3 4 5 6 ..
next
  show "process_latex_file (''x '' @ bsl # ''unknownCmd{arg} y'') = ''x  y''"
    by (rule scenario_unknown_command)
qed

text \<open>The amended claim C5 at the command of the scenario.\<close>

theorem catch_all_removes_command_witness:
  "remove_with_argument (''x '' @ command ''unknownCmd'' ''arg'' @ '' y'')
     = ''x '' @ remove_with_argument '' y''
   \<and> process_latex_file (''x '' @ command ''unknownCmd'' ''arg'' @ '' y'') = ''x  y''"
proof -
  have 1: "unknown_command ''unknownCmd'' ''arg'' '' y''"
    by (simp add: unknown_command_def dedicated_heads_def early_heads_def late_heads_def
        command_def is_alpha_def)
  have 2: "no_command (''x '' @ '' y'')" "tidy_ws True (''x '' @ command ''unknownCmd'' ''arg'' @ '' y'')"
    "no_command ''x ''" "list_all is_alpha ''unknownCmd''" "strip (''x '' @ '' y'') = ''x  y''"
    by code_simp+
  have 3: "CHR ''%'' \<notin> set (''x '' @ '' y'')" "CHR ''$'' \<notin> set (''x '' @ '' y'')"
    "''unknownCmd'' \<noteq> []" "CHR ''}'' \<notin> set ''arg''" "nl \<notin> set ''arg''"
    by simp_all
  show ?thesis
    using catch_all_removes_command [of "''x ''" "''unknownCmd''" "''arg''" "'' y''"] 1 2 3
    by metis
qed

end
